theory Spec2Isabelle
  imports Complex_Main
begin

section \<open>Python values: errors, indexing, binary strings\<close>

text \<open>Exceptions raised by the modelled code are values of this type; a computation that
  may raise returns \<open>error + 'a\<close> with \<open>Inl\<close> the exception.\<close>

datatype error = IndexError | ValueError

definition rbind :: "error + 'a \<Rightarrow> ('a \<Rightarrow> error + 'b) \<Rightarrow> error + 'b" where
  "rbind m f = (case m of Inl e \<Rightarrow> Inl e | Inr x \<Rightarrow> f x)"

text \<open>A \<open>for x in xs\<close> loop whose body updates the loop state or raises.\<close>

fun for_each :: "'a list \<Rightarrow> ('a \<Rightarrow> 's \<Rightarrow> error + 's) \<Rightarrow> 's \<Rightarrow> error + 's" where
  "for_each [] body s = Inr s"
| "for_each (x # xs) body s = rbind (body x s) (for_each xs body)"

text \<open>Python sequence indexing \<open>xs[k]\<close>: a negative index counts from the end, anything
  outside \<open>[-len, len)\<close> raises IndexError.\<close>

definition py_index :: "'a list \<Rightarrow> int \<Rightarrow> error + 'a" where
  "py_index xs k =
     (let n = int (length xs) in
      if 0 \<le> k \<and> k < n then Inr (xs ! nat k)
      else if - n \<le> k \<and> k < 0 then Inr (xs ! nat (n + k))
      else Inl IndexError)"

text \<open>Python list item assignment \<open>xs[k] = v\<close>.\<close>

definition py_assign :: "'a list \<Rightarrow> int \<Rightarrow> 'a \<Rightarrow> error + 'a list" where
  "py_assign xs k v =
     (let n = int (length xs) in
      if 0 \<le> k \<and> k < n then Inr (xs[nat k := v])
      else if - n \<le> k \<and> k < 0 then Inr (xs[nat (n + k) := v])
      else Inl IndexError)"

definition bit_char :: "bool \<Rightarrow> char" where
  "bit_char b = (if b then CHR ''1'' else CHR ''0'')"

text \<open>The binary digits of a natural number, most significant first, as \<open>format(i, 'b')\<close>
  prints them.\<close>

fun to_bin :: "nat \<Rightarrow> string" where
  "to_bin i = (if i < 2 then [bit_char (i = 1)] else to_bin (i div 2) @ [bit_char (i mod 2 = 1)])"

declare to_bin.simps [simp del]

text \<open>\<open>format(i, f'0{n}b')\<close>: the digits padded with zeros on the left to width \<open>n\<close>.\<close>

definition format_bin :: "nat \<Rightarrow> nat \<Rightarrow> string" where
  "format_bin n i = replicate (n - length (to_bin i)) (CHR ''0'') @ to_bin i"

text \<open>\<open>int(c)\<close> on a one-character string.\<close>

definition py_int :: "char \<Rightarrow> error + nat" where
  "py_int c = (if c = CHR ''0'' then Inr 0 else if c = CHR ''1'' then Inr 1 else Inl ValueError)"

text \<open>\<open>int(s, 2)\<close> on a string of binary digits.\<close>

definition py_int_base2 :: "string \<Rightarrow> error + nat" where
  "py_int_base2 s =
     (if s = [] \<or> \<not> list_all (\<lambda>c. c = CHR ''0'' \<or> c = CHR ''1'') s then Inl ValueError
      else Inr (foldl (\<lambda>a c. 2 * a + (if c = CHR ''1'' then 1 else 0)) 0 s))"

section \<open>Matrices and vectors\<close>

type_synonym matrix = "complex list list"

text \<open>\<open>np.eye(d, dtype=complex)\<close>.\<close>

definition eye :: "nat \<Rightarrow> matrix" where
  "eye d = map (\<lambda>i. map (\<lambda>j. if i = j then 1 else 0) [0..<d]) [0..<d]"

text \<open>Reading \<open>gate[a, b]\<close> and writing \<open>m[i, j] = v\<close> with numpy's bounds check.\<close>

definition gate_at :: "matrix \<Rightarrow> nat \<Rightarrow> nat \<Rightarrow> error + complex" where
  "gate_at g a b = (if a < length g \<and> b < length (g ! a) then Inr (g ! a ! b) else Inl IndexError)"

definition mat_set :: "matrix \<Rightarrow> nat \<Rightarrow> nat \<Rightarrow> complex \<Rightarrow> error + matrix" where
  "mat_set m i j v =
     (if i < length m \<and> j < length (m ! i) then Inr (m[i := (m ! i)[j := v]]) else Inl IndexError)"

text \<open>\<open>m @ v\<close> for a matrix and a vector; a shape mismatch raises ValueError.\<close>

definition dot :: "complex list \<Rightarrow> complex list \<Rightarrow> complex" where
  "dot row v = sum_list (map2 (*) row v)"

definition matvec :: "matrix \<Rightarrow> complex list \<Rightarrow> error + complex list" where
  "matvec m v =
     (if list_all (\<lambda>row. length row = length v) m then Inr (map (\<lambda>row. dot row v) m)
      else Inl ValueError)"

section \<open>QuantumCircuit\<close>

record circuit =
  n_qubits :: nat
  depth :: nat
  state :: "complex list"

definition init_circuit :: "nat \<Rightarrow> nat \<Rightarrow> circuit" where
  "init_circuit n d = \<lparr>n_qubits = n, depth = d, state = (replicate (2 ^ n) 0)[0 := 1]\<rparr>"

definition gate_X :: matrix where "gate_X = [[0, 1], [1, 0]]"
definition gate_Y :: matrix where "gate_Y = [[0, - \<i>], [\<i>, 0]]"
definition gate_Z :: matrix where "gate_Z = [[1, 0], [0, - 1]]"
definition gate_H :: matrix where
  "gate_H = [[1 / sqrt 2, 1 / sqrt 2], [1 / sqrt 2, - 1 / sqrt 2]]"

text \<open>The body of the inner loop of \<open>apply_gate\<close>, for one pair \<open>(i, j)\<close>.\<close>

definition gate_cell :: "nat \<Rightarrow> matrix \<Rightarrow> int \<Rightarrow> nat \<Rightarrow> nat \<Rightarrow> matrix \<Rightarrow> error + matrix" where
  "gate_cell n gate target i j gate_full =
     (let i_bin = format_bin n i; j_bin = format_bin n j in
      if list_all (\<lambda>k. i_bin ! k = j_bin ! k) (filter (\<lambda>k. int k \<noteq> target) [0..<n])
      then rbind (py_index i_bin target) (\<lambda>a.
           rbind (py_int a) (\<lambda>a'.
           rbind (py_index j_bin target) (\<lambda>b.
           rbind (py_int b) (\<lambda>b'.
           rbind (gate_at gate a' b') (\<lambda>v.
           mat_set gate_full i j v)))))
      else Inr gate_full)"

definition apply_gate :: "circuit \<Rightarrow> matrix \<Rightarrow> int \<Rightarrow> error + circuit" where
  "apply_gate c gate target =
     (let n = n_qubits c; dim = 2 ^ n in
      rbind (for_each [0..<dim] (\<lambda>i. for_each [0..<dim] (\<lambda>j. gate_cell n gate target i j))
               (eye dim)) (\<lambda>gate_full.
      rbind (matvec gate_full (state c)) (\<lambda>s.
      Inr (c\<lparr>state := s\<rparr>))))"

text \<open>The body of the loop of \<open>entangle_qubits\<close>, for one index \<open>i\<close>.\<close>

definition cnot_row :: "nat \<Rightarrow> int \<Rightarrow> int \<Rightarrow> nat \<Rightarrow> matrix \<Rightarrow> error + matrix" where
  "cnot_row n control target i gate_full =
     (let i_bin = format_bin n i in
      rbind (py_index i_bin control) (\<lambda>cb.
      if cb = CHR ''1'' then
        rbind (py_index i_bin target) (\<lambda>tb.
        rbind (py_assign i_bin target (if tb = CHR ''0'' then CHR ''1'' else CHR ''0''))
          (\<lambda>i_bin_flipped.
        rbind (py_int_base2 i_bin_flipped) (\<lambda>j.
        rbind (mat_set gate_full i i 0) (\<lambda>g1.
        rbind (mat_set g1 i j 1) (\<lambda>g2.
        rbind (mat_set g2 j j 0) (\<lambda>g3.
        mat_set g3 j i 1))))))
      else Inr gate_full))"

definition entangle_qubits :: "circuit \<Rightarrow> int \<Rightarrow> int \<Rightarrow> error + circuit" where
  "entangle_qubits c control target =
     (let n = n_qubits c; dim = 2 ^ n in
      rbind (for_each [0..<dim] (cnot_row n control target) (eye dim)) (\<lambda>gate_full.
      rbind (matvec gate_full (state c)) (\<lambda>s.
      Inr (c\<lparr>state := s\<rparr>))))"

section \<open>QuantumProcessor\<close>

text \<open>Numbers are exact reals and complex numbers. The code computes in IEEE floating
  point of the array's dtype, so a definition below agrees with the code up to rounding
  only, and exactly where the floating-point operations are exact (as on zeros). What
  depends on the rounded values themselves is stated over the values as computed, see
  \<open>phase_estimation_of\<close>.

  A numpy float result where the source can produce a non-finite value: division by zero
  gives \<open>nan\<close> or an infinity (with a RuntimeWarning), not an exception.\<close>

datatype npfloat = Fin real | NaN | PInf | NInf

definition np_divide :: "real \<Rightarrow> real \<Rightarrow> npfloat" where
  "np_divide a b =
     (if b \<noteq> 0 then Fin (a / b) else if a = 0 then NaN else if 0 < a then PInf else NInf)"

text \<open>\<open>np.linalg.norm\<close> of a real vector, and the normalisation, in exact arithmetic
  (no rounding and no overflow of the norm).\<close>

definition l2norm :: "real list \<Rightarrow> real" where
  "l2norm xs = sqrt (sum_list (map (\<lambda>x. x\<^sup>2) xs))"

definition prepare_quantum_state :: "real list \<Rightarrow> real list" where
  "prepare_quantum_state signal = map (\<lambda>x. x / (l2norm signal + 1 / 10 ^ 10)) signal"

definition quantum_feature_extraction :: "real list \<Rightarrow> complex list" where
  "quantum_feature_extraction signal =
     (let n = length signal in
      map (\<lambda>k. sum_list (map2 (\<lambda>x t.
             of_real x * exp (- 2 * \<i> * of_real pi * of_nat k * of_nat t / of_nat n))
             signal [0..<n])) [0..<n])"

text \<open>\<open>np.argmax\<close>: the index of the first maximal element; an empty array raises
  ValueError. The elements are of any linearly ordered type, which leaves out \<open>nan\<close>.\<close>

fun argmax_from :: "'a::linorder list \<Rightarrow> nat \<Rightarrow> nat \<Rightarrow> 'a \<Rightarrow> nat" where
  "argmax_from [] i best v = best"
| "argmax_from (x # xs) i best v =
     (if v < x then argmax_from xs (Suc i) i x else argmax_from xs (Suc i) best v)"

definition np_argmax :: "'a::linorder list \<Rightarrow> error + nat" where
  "np_argmax xs = (case xs of [] \<Rightarrow> Inl ValueError | x # xs' \<Rightarrow> Inr (argmax_from xs' 1 0 x))"

text \<open>\<open>np.angle(z)\<close> is \<open>arctan2(z.imag, z.real)\<close>, here in exact arithmetic.\<close>

definition arctan2 :: "real \<Rightarrow> real \<Rightarrow> real" where
  "arctan2 y x =
     (if 0 < x then arctan (y / x)
      else if x < 0 then (if 0 \<le> y then arctan (y / x) + pi else arctan (y / x) - pi)
      else if 0 < y then pi / 2 else if y < 0 then - pi / 2 else 0)"

definition np_angle :: "complex \<Rightarrow> real" where
  "np_angle z = arctan2 (Im z) (Re z)"

text \<open>The body of \<open>_quantum_phase_estimation\<close> once the transform has returned the
  array \<open>phases\<close>: \<open>np.angle(phases[np.argmax(np.abs(phases))])\<close>. The coefficients
  are the values the code has computed, of any type, and \<open>np.abs\<close> and \<open>np.angle\<close>
  are taken as they compute, as the parameters \<open>mag\<close> and \<open>ang\<close>: which
  coefficient is chosen depends on the rounded magnitudes, not on the exact ones.\<close>

definition phase_estimation_of ::
  "('c \<Rightarrow> 'm::linorder) \<Rightarrow> ('c \<Rightarrow> 'p) \<Rightarrow> 'c list \<Rightarrow> error + 'c list \<times> 'p" where
  "phase_estimation_of mag ang phases =
     rbind (np_argmax (map mag phases)) (\<lambda>m.
     rbind (py_index phases (int m)) (\<lambda>z.
     Inr (phases, ang z)))"

text \<open>Phase estimation in exact arithmetic: the exact transform, magnitude and angle.\<close>

definition quantum_phase_estimation :: "real list \<Rightarrow> error + complex list \<times> real" where
  "quantum_phase_estimation signal =
     phase_estimation_of cmod np_angle (quantum_feature_extraction signal)"

text \<open>\<open>np.fft.fft\<close>: the discrete Fourier transform; an empty input raises ValueError.\<close>

definition np_fft :: "real list \<Rightarrow> error + complex list" where
  "np_fft xs =
     (let n = length xs in
      if n = 0 then Inl ValueError
      else Inr (map (\<lambda>k. \<Sum>t<n. of_real (xs ! t) *
                  exp (- 2 * \<i> * of_real pi * of_nat k * of_nat t / of_nat n)) [0..<n]))"

text \<open>\<open>np.max\<close>; an empty array raises ValueError.\<close>

definition np_max :: "real list \<Rightarrow> error + real" where
  "np_max xs = (case xs of [] \<Rightarrow> Inl ValueError | x # xs' \<Rightarrow> Inr (fold max xs' x))"

definition detect_periodicity :: "real list \<Rightarrow> error + npfloat" where
  "detect_periodicity signal =
     rbind (np_fft signal) (\<lambda>fft.
     let power = map (\<lambda>z. (cmod z)\<^sup>2) fft in
     rbind (np_max power) (\<lambda>m.
     Inr (np_divide m (sum_list power))))"

text \<open>\<open>np.std\<close>: the mean is the sum divided by the count and the variance the sum of
  squared deviations divided by the count, so an empty array gives \<open>nan\<close>.\<close>

definition np_std :: "real list \<Rightarrow> npfloat" where
  "np_std xs =
     (let n = real (length xs) in
      case np_divide (sum_list xs) n of
        Fin m \<Rightarrow> (case np_divide (sum_list (map (\<lambda>x. \<bar>x - m\<bar>\<^sup>2) xs)) n of
                    Fin v \<Rightarrow> Fin (sqrt v) | r \<Rightarrow> r)
      | r \<Rightarrow> NaN)"

definition estimate_noise :: "real list \<Rightarrow> npfloat" where
  "estimate_noise signal = np_std signal"

text \<open>\<open>np.diff\<close> of a one-dimensional array: \<open>a[1:] - a[:-1]\<close>.\<close>

definition np_diff :: "real list \<Rightarrow> real list" where
  "np_diff xs = map2 (\<lambda>b a. b - a) (tl xs) (butlast xs)"

definition quantum_complexity :: "real list \<Rightarrow> real" where
  "quantum_complexity signal = sum_list (map abs (np_diff signal))"

record patterns =
  periodic :: npfloat
  noise_level :: npfloat
  complexity :: real

text \<open>The dictionary is built entry by entry, so the periodicity is computed first and
  its exception, if any, is the one raised.\<close>

definition quantum_pattern_recognition :: "real list \<Rightarrow> error + patterns" where
  "quantum_pattern_recognition signal =
     rbind (detect_periodicity signal) (\<lambda>p.
     Inr \<lparr>periodic = p, noise_level = estimate_noise signal,
          complexity = quantum_complexity signal\<rparr>)"

definition serialize_complex :: "complex list \<Rightarrow> real list \<times> real list" where
  "serialize_complex data = (map Re data, map Im data)"

record feature_set =
  features :: "real list \<times> real list"
  phases :: "real list \<times> real list"
  dominant_phase :: real
  patterns :: patterns
  processed_signal :: "real list"

definition process_signal :: "real list \<Rightarrow> error + feature_set" where
  "process_signal signal =
     (let signal_norm = prepare_quantum_state signal;
          feats = quantum_feature_extraction signal_norm in
      rbind (quantum_phase_estimation signal_norm) (\<lambda>(phs, dominant).
      rbind (quantum_pattern_recognition signal_norm) (\<lambda>pats.
      Inr \<lparr>features = serialize_complex feats, phases = serialize_complex phs,
           dominant_phase = dominant, patterns = pats, processed_signal = signal_norm\<rparr>)))"

section \<open>Notions of the specification\<close>

text \<open>Qubit \<open>k\<close> of basis index \<open>i\<close> in an \<open>n\<close>-qubit register: character \<open>k\<close> of the
  \<open>n\<close>-digit binary string of \<open>i\<close>, so qubit 0 is the most significant bit.\<close>

definition qbit :: "nat \<Rightarrow> nat \<Rightarrow> nat \<Rightarrow> bool" where
  "qbit n i k = bit i (n - 1 - k)"

text \<open>The basis index \<open>i\<close> with qubit \<open>k\<close> flipped.\<close>

definition flipq :: "nat \<Rightarrow> nat \<Rightarrow> nat \<Rightarrow> nat" where
  "flipq n i k = flip_bit (n - 1 - k) i"

text \<open>\<open>i\<close> and \<open>j\<close> agree on every qubit other than \<open>t\<close>.\<close>

definition agree_off :: "nat \<Rightarrow> nat \<Rightarrow> nat \<Rightarrow> nat \<Rightarrow> bool" where
  "agree_off n t i j = list_all (\<lambda>k. k = t \<or> qbit n i k = qbit n j k) [0..<n]"

definition is_2x2 :: "matrix \<Rightarrow> bool" where
  "is_2x2 g = (length g = 2 \<and> list_all (\<lambda>row. length row = 2) g)"

definition has_shape :: "matrix \<Rightarrow> nat \<Rightarrow> nat \<Rightarrow> bool" where
  "has_shape g r k = (length g = r \<and> list_all (\<lambda>row. length row = k) g)"

text \<open>The embedded operator as the specification writes it: entry \<open>(i, j)\<close> is
  \<open>gate[bit(i,target), bit(j,target)]\<close> when \<open>i\<close> and \<open>j\<close> agree on every other qubit,
  else 0.\<close>

definition gate_entry :: "nat \<Rightarrow> matrix \<Rightarrow> nat \<Rightarrow> nat \<Rightarrow> nat \<Rightarrow> complex" where
  "gate_entry n gate t i j = gate ! (if qbit n i t then 1 else 0) ! (if qbit n j t then 1 else 0)"

definition embed_entry :: "nat \<Rightarrow> matrix \<Rightarrow> nat \<Rightarrow> nat \<Rightarrow> nat \<Rightarrow> complex" where
  "embed_entry n gate t i j = (if agree_off n t i j then gate_entry n gate t i j else 0)"

definition embed_gate :: "nat \<Rightarrow> matrix \<Rightarrow> nat \<Rightarrow> matrix" where
  "embed_gate n gate t = map (\<lambda>i. map (\<lambda>j. embed_entry n gate t i j) [0..<2 ^ n]) [0..<2 ^ n]"

text \<open>The sum of the squared magnitudes of a state vector, and unitarity of a 2x2 gate:
  the conjugate transpose times the gate is the identity.\<close>

definition norm_sq :: "complex list \<Rightarrow> real" where
  "norm_sq s = sum_list (map (\<lambda>z. (cmod z)\<^sup>2) s)"

definition unitary2 :: "matrix \<Rightarrow> bool" where
  "unitary2 g = (is_2x2 g \<and>
     list_all (\<lambda>a. list_all (\<lambda>b.
         cnj (g ! 0 ! a) * g ! 0 ! b + cnj (g ! 1 ! a) * g ! 1 ! b = (if a = b then 1 else 0))
       [0, 1]) [0, 1])"

text \<open>A sequence of calls on one circuit: each call is \<open>apply_gate\<close> or
  \<open>entangle_qubits\<close>, and the first exception ends the run. A call is valid when it
  meets the preconditions of the specification.\<close>

datatype op = Gate matrix int | Entangle int int

fun valid_op :: "nat \<Rightarrow> op \<Rightarrow> bool" where
  "valid_op n (Gate g t) = (unitary2 g \<and> 0 \<le> t \<and> t < int n)"
| "valid_op n (Entangle c t) = (0 \<le> c \<and> c < int n \<and> 0 \<le> t \<and> t < int n \<and> c \<noteq> t)"

fun apply_op :: "circuit \<Rightarrow> op \<Rightarrow> error + circuit" where
  "apply_op c (Gate g t) = apply_gate c g t"
| "apply_op c (Entangle ct t) = entangle_qubits c ct t"

fun run :: "op list \<Rightarrow> circuit \<Rightarrow> error + circuit" where
  "run [] c = Inr c"
| "run (x # xs) c = rbind (apply_op c x) (run xs)"

text \<open>The transform as the specification writes it: coefficient \<open>k\<close> of a signal of
  length \<open>N\<close> is the sum over \<open>t\<close> in \<open>[0, N)\<close> of
  \<open>signal[t] * exp(-2 pi i k t / N)\<close>.\<close>

definition dft_coefficient :: "real list \<Rightarrow> nat \<Rightarrow> complex" where
  "dft_coefficient signal k =
     (\<Sum>t<length signal. of_real (signal ! t) *
        exp (- (2 * of_real pi * \<i> * of_nat k * of_nat t / of_nat (length signal))))"

section \<open>Auxiliary notions for the proofs\<close>

definition square :: "nat \<Rightarrow> matrix \<Rightarrow> bool" where
  "square d m = (length m = d \<and> (\<forall>row\<in>set m. length row = d))"

definition put :: "matrix \<Rightarrow> nat \<Rightarrow> nat \<Rightarrow> complex \<Rightarrow> matrix" where
  "put m i j v = m[i := (m ! i)[j := v]]"

definition swap4 :: "matrix \<Rightarrow> nat \<Rightarrow> nat \<Rightarrow> matrix" where
  "swap4 m i j = put (put (put (put m i i 0) i j 1) j j 0) j i 1"

text \<open>The index whose amplitude \<open>entangle_qubits\<close> moves to index \<open>a\<close>.\<close>

definition cnot_perm :: "nat \<Rightarrow> nat \<Rightarrow> nat \<Rightarrow> nat \<Rightarrow> nat" where
  "cnot_perm n c t a = (if qbit n a c \<or> qbit n (flipq n a t) c then flipq n a t else a)"

definition unit_state :: "nat \<Rightarrow> circuit \<Rightarrow> bool" where
  "unit_state n c = (n_qubits c = n \<and> length (state c) = 2 ^ n \<and> norm_sq (state c) = 1)"

section \<open>Binary strings and bits\<close>

lemma to_bin_small: "i < 2 \<Longrightarrow> to_bin i = [bit_char (i = 1)]"
  by (subst to_bin.simps) simp

lemma to_bin_big: "\<not> i < 2 \<Longrightarrow> to_bin i = to_bin (i div 2) @ [bit_char (odd i)]"
  by (subst to_bin.simps) (simp add: odd_iff_mod_2_eq_one)

lemma to_bin_length_le: "0 < n \<Longrightarrow> i < 2 ^ n \<Longrightarrow> length (to_bin i) \<le> n"
proof (induction n arbitrary: i)
  case 0
  then show ?case by simp
next
  case (Suc n)
  show ?case
  proof (cases "i < 2")
    case True
    then show ?thesis by (simp add: to_bin_small)
  next
    case False
    with Suc.prems have n: "0 < n" by (cases n) auto
    from Suc.prems have "i div 2 < 2 ^ n" by simp
    with Suc.IH n have "length (to_bin (i div 2)) \<le> n" by blast
    with False show ?thesis by (simp add: to_bin_big)
  qed
qed

lemma format_bin_length: "0 < n \<Longrightarrow> i < 2 ^ n \<Longrightarrow> length (format_bin n i) = n"
  using to_bin_length_le [of n i] by (simp add: format_bin_def)

lemma format_bin_one: "i < 2 \<Longrightarrow> format_bin (Suc 0) i = [bit_char (odd i)]"
proof -
  assume "i < 2"
  then have "i = 0 \<or> i = 1" by auto
  then show ?thesis by (auto simp: format_bin_def to_bin_small)
qed

lemma format_bin_Suc:
  assumes "0 < n" "i < 2 ^ Suc n"
  shows "format_bin (Suc n) i = format_bin n (i div 2) @ [bit_char (odd i)]"
proof (cases "i < 2")
  case True
  then have "i div 2 = 0" by simp
  moreover have "replicate n (CHR ''0'') = replicate (n - 1) (CHR ''0'') @ [CHR ''0'']"
    using assms(1) by (cases n) (simp_all add: replicate_append_same)
  ultimately show ?thesis using True
    by (cases "i = 0") (auto simp: format_bin_def to_bin_small bit_char_def)
next
  case False
  from assms have "i div 2 < 2 ^ n" by simp
  then have "length (to_bin (i div 2)) \<le> n" using to_bin_length_le assms(1) by blast
  then show ?thesis using False by (simp add: format_bin_def to_bin_big Suc_diff_le)
qed

lemma format_bin_nth:
  "0 < n \<Longrightarrow> i < 2 ^ n \<Longrightarrow> k < n \<Longrightarrow> format_bin n i ! k = bit_char (bit i (n - 1 - k))"
proof (induction n arbitrary: i k)
  case 0
  then show ?case by simp
next
  case (Suc n)
  show ?case
  proof (cases "n = 0")
    case True
    with Suc.prems show ?thesis by (simp add: format_bin_one bit_0)
  next
    case False
    then have n: "0 < n" by simp
    have d: "i div 2 < 2 ^ n" using Suc.prems by simp
    have eq: "format_bin (Suc n) i = format_bin n (i div 2) @ [bit_char (odd i)]"
      using format_bin_Suc n Suc.prems by blast
    show ?thesis
    proof (cases "k < n")
      case True
      then have "format_bin (Suc n) i ! k = format_bin n (i div 2) ! k"
        by (simp add: eq nth_append format_bin_length n d)
      also have "\<dots> = bit_char (bit (i div 2) (n - 1 - k))"
        using Suc.IH n d True by blast
      also have "bit (i div 2) (n - 1 - k) = bit i (Suc n - 1 - k)"
        using True by (simp add: bit_Suc [symmetric] Suc_diff_Suc)
      finally show ?thesis .
    next
      case False
      with Suc.prems have "k = n" by simp
      then show ?thesis by (simp add: eq nth_append format_bin_length n d bit_0)
    qed
  qed
qed

section \<open>Building a matrix cell by cell\<close>

lemma agree_off_alt: "agree_off n t i j \<longleftrightarrow> (\<forall>k<n. k \<noteq> t \<longrightarrow> qbit n i k = qbit n j k)"
  by (auto simp: agree_off_def list_all_iff)

lemma square_put: "square d m \<Longrightarrow> square d (put m i j v)"
proof (cases "i < length m")
  case True
  assume "square d m"
  with True show ?thesis unfolding square_def put_def
    by (auto dest!: set_update_subset_insert [THEN subsetD])
next
  case False
  assume "square d m"
  with False show ?thesis by (simp add: put_def list_update_beyond)
qed

lemma put_nth:
  "square d m \<Longrightarrow> i < d \<Longrightarrow> j < d \<Longrightarrow> a < d \<Longrightarrow> b < d \<Longrightarrow>
   put m i j v ! a ! b = (if a = i \<and> b = j then v else m ! a ! b)"
  unfolding square_def put_def by (auto simp: nth_list_update)

lemma mat_set_square:
  "square d m \<Longrightarrow> i < d \<Longrightarrow> j < d \<Longrightarrow> mat_set m i j v = Inr (put m i j v)"
  unfolding square_def put_def mat_set_def by simp

lemma square_eye: "square d (eye d)"
  unfolding square_def eye_def by auto

lemma eye_nth: "a < d \<Longrightarrow> b < d \<Longrightarrow> eye d ! a ! b = (if a = b then 1 else 0)"
  unfolding eye_def by simp

lemma for_each_pure:
  assumes "\<And>x s. x \<in> set xs \<Longrightarrow> P s \<Longrightarrow> body x s = Inr (f x s) \<and> P (f x s)"
    and "P s"
  shows "for_each xs body s = Inr (fold f xs s) \<and> P (fold f xs s)"
  using assms
proof (induction xs arbitrary: s)
  case Nil
  then show ?case by simp
next
  case (Cons x xs)
  from Cons.prems have step: "body x s = Inr (f x s)" "P (f x s)" by auto
  have "for_each xs body (f x s) = Inr (fold f xs (f x s)) \<and> P (fold f xs (f x s))"
    by (rule Cons.IH) (use Cons.prems step in auto)
  then show ?case by (simp add: step rbind_def)
qed

lemma square_entries_eq:
  assumes "square d m" "square d m'" "\<And>a b. a < d \<Longrightarrow> b < d \<Longrightarrow> m ! a ! b = m' ! a ! b"
  shows "m = m'"
proof (rule nth_equalityI)
  show "length m = length m'" using assms by (simp add: square_def)
next
  fix a assume a: "a < length m"
  then have ad: "a < d" using assms by (simp add: square_def)
  have la: "length (m ! a) = d" "length (m' ! a) = d"
    using assms a by (auto simp: square_def)
  show "m ! a = m' ! a"
    by (rule nth_equalityI) (use la ad assms(3) in auto)
qed

lemma fold_cells:
  assumes "square d m" "i < d" "set js \<subseteq> {..<d}"
  shows "square d (fold (\<lambda>j m. if c j then put m i j (v j) else m) js m) \<and>
    (\<forall>a<d. \<forall>b<d. fold (\<lambda>j m. if c j then put m i j (v j) else m) js m ! a ! b =
       (if a = i \<and> b \<in> set js \<and> c b then v b else m ! a ! b))"
  using assms
proof (induction js arbitrary: m)
  case Nil
  then show ?case by simp
next
  case (Cons j js)
  let ?m = "if c j then put m i j (v j) else m"
  have sq: "square d ?m" using Cons.prems by (simp add: square_put)
  have j: "j < d" using Cons.prems by simp
  have ent: "\<And>a b. a < d \<Longrightarrow> b < d \<Longrightarrow>
      ?m ! a ! b = (if a = i \<and> b = j \<and> c j then v j else m ! a ! b)"
    using Cons.prems j by (simp add: put_nth)
  have IH: "square d (fold (\<lambda>j m. if c j then put m i j (v j) else m) js ?m) \<and>
    (\<forall>a<d. \<forall>b<d. fold (\<lambda>j m. if c j then put m i j (v j) else m) js ?m ! a ! b =
       (if a = i \<and> b \<in> set js \<and> c b then v b else ?m ! a ! b))"
    by (rule Cons.IH) (use sq Cons.prems in auto)
  show ?case
  proof (intro conjI allI impI)
    show "square d (fold (\<lambda>j m. if c j then put m i j (v j) else m) (j # js) m)"
      using IH by simp
  next
    fix a b assume ab: "a < d" "b < d"
    have "fold (\<lambda>j m. if c j then put m i j (v j) else m) (j # js) m ! a ! b =
        (if a = i \<and> b \<in> set js \<and> c b then v b else ?m ! a ! b)"
      using IH ab by simp
    also have "\<dots> = (if a = i \<and> b \<in> set (j # js) \<and> c b then v b else m ! a ! b)"
      using ent [OF ab] by auto
    finally show "fold (\<lambda>j m. if c j then put m i j (v j) else m) (j # js) m ! a ! b =
        (if a = i \<and> b \<in> set (j # js) \<and> c b then v b else m ! a ! b)" .
  qed
qed

lemma fold_rows:
  assumes "square d m" "set is \<subseteq> {..<d}" "set js \<subseteq> {..<d}"
  shows "square d (fold (\<lambda>i. fold (\<lambda>j m. if c i j then put m i j (v i j) else m) js) is m) \<and>
    (\<forall>a<d. \<forall>b<d. fold (\<lambda>i. fold (\<lambda>j m. if c i j then put m i j (v i j) else m) js) is m ! a ! b =
       (if a \<in> set is \<and> b \<in> set js \<and> c a b then v a b else m ! a ! b))"
  using assms
proof (induction "is" arbitrary: m)
  case Nil
  then show ?case by simp
next
  case (Cons i "is")
  let ?row = "\<lambda>i. fold (\<lambda>j m. if c i j then put m i j (v i j) else m) js"
  have i: "i < d" using Cons.prems by simp
  note row = fold_cells [OF Cons.prems(1) i Cons.prems(3), of "c i" "v i"]
  have IH: "square d (fold ?row is (?row i m)) \<and>
    (\<forall>a<d. \<forall>b<d. fold ?row is (?row i m) ! a ! b =
       (if a \<in> set is \<and> b \<in> set js \<and> c a b then v a b else ?row i m ! a ! b))"
    by (rule Cons.IH) (use row Cons.prems in auto)
  show ?case
  proof (intro conjI allI impI)
    show "square d (fold ?row (i # is) m)" using IH by simp
  next
    fix a b assume ab: "a < d" "b < d"
    have "fold ?row (i # is) m ! a ! b =
       (if a \<in> set is \<and> b \<in> set js \<and> c a b then v a b else ?row i m ! a ! b)"
      using IH ab by simp
    also have "\<dots> = (if a \<in> set (i # is) \<and> b \<in> set js \<and> c a b then v a b else m ! a ! b)"
      using row ab by auto
    finally show "fold ?row (i # is) m ! a ! b =
       (if a \<in> set (i # is) \<and> b \<in> set js \<and> c a b then v a b else m ! a ! b)" .
  qed
qed

lemma py_index_nat: "k < length xs \<Longrightarrow> py_index xs (int k) = Inr (xs ! k)"
  by (simp add: py_index_def)

lemma py_int_bit_char: "py_int (bit_char b) = Inr (if b then 1 else 0)"
  by (simp add: py_int_def bit_char_def)

lemma gate_at_2x2: "is_2x2 g \<Longrightarrow> a < 2 \<Longrightarrow> b < 2 \<Longrightarrow> gate_at g a b = Inr (g ! a ! b)"
  by (auto simp: is_2x2_def gate_at_def list_all_length)

lemma agree_off_format:
  assumes "0 < n" "i < 2 ^ n" "j < 2 ^ n"
  shows "list_all (\<lambda>k. format_bin n i ! k = format_bin n j ! k)
           (filter (\<lambda>k. int k \<noteq> int t) [0..<n]) = agree_off n t i j"
  using assms by (auto simp: list_all_iff agree_off_alt qbit_def format_bin_nth bit_char_def)

lemma gate_cell_valid:
  assumes "t < n" "i < 2 ^ n" "j < 2 ^ n" "is_2x2 gate" "square (2 ^ n) m"
  shows "gate_cell n gate (int t) i j m =
     Inr (if agree_off n t i j then put m i j (gate_entry n gate t i j) else m)"
proof -
  have n: "0 < n" using assms(1) by simp
  show ?thesis
    unfolding gate_cell_def Let_def agree_off_format [OF n assms(2,3)]
    using assms n
    by (simp add: py_index_nat format_bin_length format_bin_nth py_int_bit_char rbind_def
        gate_at_2x2 mat_set_square gate_entry_def qbit_def)
qed

section \<open>Flipping a qubit\<close>

lemma bit_above: "i < 2 ^ n \<Longrightarrow> n \<le> q \<Longrightarrow> \<not> bit (i::nat) q"
proof -
  assume "i < 2 ^ n" "n \<le> q"
  then have "take_bit n i = i" by (simp add: take_bit_nat_eq_self)
  then have "bit i q = bit (take_bit n i) q" by simp
  also have "\<dots> = False" using \<open>n \<le> q\<close> by (simp add: bit_take_bit_iff)
  finally show ?thesis by simp
qed

lemma less_exp_bits: "(\<And>q. n \<le> q \<Longrightarrow> \<not> bit (i::nat) q) \<Longrightarrow> i < 2 ^ n"
proof -
  assume a: "\<And>q. n \<le> q \<Longrightarrow> \<not> bit i q"
  have "take_bit n i = i"
  proof (rule bit_eqI)
    fix q
    show "bit (take_bit n i) q = bit i q"
      using a [of q] by (cases "q < n") (simp_all add: bit_take_bit_iff)
  qed
  then show ?thesis by (simp add: take_bit_nat_eq_self_iff)
qed

lemma qbit_flipq: "t < n \<Longrightarrow> k < n \<Longrightarrow> qbit n (flipq n i t) k = (if k = t then \<not> qbit n i k else qbit n i k)"
  by (auto simp: qbit_def flipq_def bit_flip_bit_iff)

lemma flipq_less: "t < n \<Longrightarrow> i < 2 ^ n \<Longrightarrow> flipq n i t < 2 ^ n"
  by (rule less_exp_bits) (auto simp: flipq_def bit_flip_bit_iff bit_above)

lemma flipq_flipq: "flipq n (flipq n i t) t = i"
  by (rule bit_eqI) (auto simp: flipq_def bit_flip_bit_iff)

lemma flipq_neq: "flipq n i t \<noteq> i"
proof
  assume "flipq n i t = i"
  then have "bit (flipq n i t) (n - 1 - t) = bit i (n - 1 - t)" by simp
  then show False by (simp add: flipq_def bit_flip_bit_iff)
qed

lemma qbit_eqI:
  assumes "i < 2 ^ n" "j < 2 ^ n" "\<And>k. k < n \<Longrightarrow> qbit n i k = qbit n j k"
  shows "i = j"
proof (rule bit_eqI)
  fix q
  show "bit i q = bit j q"
  proof (cases "q < n")
    case True
    then have "n - 1 - (n - 1 - q) = q" "n - 1 - q < n" by auto
    with assms(3) [of "n - 1 - q"] show ?thesis by (simp add: qbit_def)
  next
    case False
    then show ?thesis using assms(1,2) by (simp add: bit_above)
  qed
qed

lemma agree_off_iff:
  assumes "t < n" "i < 2 ^ n" "j < 2 ^ n"
  shows "agree_off n t i j \<longleftrightarrow> j = i \<or> j = flipq n i t"
proof
  assume ag: "agree_off n t i j"
  show "j = i \<or> j = flipq n i t"
  proof (cases "qbit n i t = qbit n j t")
    case True
    have "j = i"
      by (rule qbit_eqI [OF assms(3,2)]) (use ag True in \<open>auto simp: agree_off_alt\<close>)
    then show ?thesis ..
  next
    case False
    have "j = flipq n i t"
      by (rule qbit_eqI [OF assms(3) flipq_less [OF assms(1,2)]])
        (use ag False assms(1) in \<open>auto simp: agree_off_alt qbit_flipq\<close>)
    then show ?thesis ..
  qed
next
  assume "j = i \<or> j = flipq n i t"
  then show "agree_off n t i j"
    using assms(1) by (auto simp: agree_off_alt qbit_flipq)
qed

lemma format_bin_eq_map:
  "0 < n \<Longrightarrow> i < 2 ^ n \<Longrightarrow> format_bin n i = map (\<lambda>k. bit_char (qbit n i k)) [0..<n]"
  by (rule nth_equalityI) (simp_all add: format_bin_length format_bin_nth qbit_def)

lemma parse_bits:
  "foldl (\<lambda>a c. 2 * a + (if c = CHR ''1'' then 1 else 0)) 0
     (map (\<lambda>k. bit_char (bit x (n - 1 - k))) [0..<n]) = take_bit n (x::nat)"
proof (induction n arbitrary: x)
  case 0
  then show ?case by simp
next
  case (Suc n)
  let ?f = "\<lambda>a c. 2 * a + (if c = CHR ''1'' then 1 else (0::nat))"
  have eq: "map (\<lambda>k. bit_char (bit x (n - k))) [0..<n] =
        map (\<lambda>k. bit_char (bit (x div 2) (n - 1 - k))) [0..<n]"
    by (rule map_cong) (auto simp: bit_Suc [symmetric] Suc_diff_Suc)
  have "foldl ?f 0 (map (\<lambda>k. bit_char (bit x (Suc n - 1 - k))) [0..<Suc n]) =
      2 * foldl ?f 0 (map (\<lambda>k. bit_char (bit x (n - k))) [0..<n]) + (if odd x then 1 else 0)"
    by (simp add: bit_char_def bit_0)
  also have "\<dots> = 2 * take_bit n (x div 2) + (if odd x then 1 else 0)"
    unfolding eq Suc.IH ..
  also have "\<dots> = take_bit (Suc n) x"
    by (simp add: take_bit_Suc mod_2_eq_odd)
  finally show ?case .
qed

lemma py_int_base2_bits:
  "0 < n \<Longrightarrow> x < 2 ^ n \<Longrightarrow> py_int_base2 (map (\<lambda>k. bit_char (qbit n x k)) [0..<n]) = Inr x"
  unfolding py_int_base2_def qbit_def parse_bits
  by (auto simp: list_all_iff bit_char_def take_bit_nat_eq_self)

lemma flipped_string:
  assumes "t < n" "i < 2 ^ n"
  shows "(format_bin n i)[t := bit_char (\<not> qbit n i t)] =
         map (\<lambda>k. bit_char (qbit n (flipq n i t) k)) [0..<n]"
  by (rule nth_equalityI)
    (use assms in \<open>auto simp: format_bin_length format_bin_eq_map nth_list_update qbit_flipq\<close>)

section \<open>The operator built by apply_gate\<close>

lemma square_table: "square d (map (\<lambda>i. map (\<lambda>j. f i j) [0..<d]) [0..<d])"
  by (auto simp: square_def)

lemma agree_off_refl: "agree_off n t i i"
  by (simp add: agree_off_alt)

lemma apply_gate_matrix:
  assumes "t < n" "is_2x2 gate"
  shows "for_each [0..<2 ^ n] (\<lambda>i. for_each [0..<2 ^ n] (\<lambda>j. gate_cell n gate (int t) i j))
           (eye (2 ^ n)) = Inr (embed_gate n gate t)"
proof -
  let ?d = "2 ^ n :: nat"
  let ?cell = "\<lambda>i j m. if agree_off n t i j then put m i j (gate_entry n gate t i j) else m"
  let ?row = "\<lambda>i. fold (?cell i) [0..<?d]"
  have inner: "for_each [0..<?d] (\<lambda>j. gate_cell n gate (int t) i j) m = Inr (?row i m)
      \<and> square ?d (?row i m)" if "i \<in> set [0..<?d]" "square ?d m" for i m
  proof (rule for_each_pure [where P = "square ?d"])
    fix j s assume "j \<in> set [0..<?d]" "square ?d s"
    then show "gate_cell n gate (int t) i j s = Inr (?cell i j s) \<and> square ?d (?cell i j s)"
      using that(1) assms by (simp add: gate_cell_valid square_put)
  qed (rule that(2))
  have outer: "for_each [0..<?d] (\<lambda>i. for_each [0..<?d] (\<lambda>j. gate_cell n gate (int t) i j))
      (eye ?d) = Inr (fold ?row [0..<?d] (eye ?d)) \<and> square ?d (fold ?row [0..<?d] (eye ?d))"
    by (rule for_each_pure [where P = "square ?d"]) (use inner square_eye in auto)
  have ent: "square ?d (fold ?row [0..<?d] (eye ?d)) \<and>
    (\<forall>a<?d. \<forall>b<?d. fold ?row [0..<?d] (eye ?d) ! a ! b =
       (if a \<in> set [0..<?d] \<and> b \<in> set [0..<?d] \<and> agree_off n t a b
        then gate_entry n gate t a b else eye ?d ! a ! b))"
    by (rule fold_rows) (auto simp: square_eye)
  have "fold ?row [0..<?d] (eye ?d) = embed_gate n gate t"
  proof (rule square_entries_eq [where d = ?d])
    show "square ?d (fold ?row [0..<?d] (eye ?d))" using ent by blast
    show "square ?d (embed_gate n gate t)" unfolding embed_gate_def by (rule square_table)
  next
    fix a b assume ab: "a < ?d" "b < ?d"
    have "agree_off n t a b" if "a = b" using that agree_off_refl by simp
    then show "fold ?row [0..<?d] (eye ?d) ! a ! b = embed_gate n gate t ! a ! b"
      using ent ab by (auto simp: embed_gate_def embed_entry_def eye_nth)
  qed
  with outer show ?thesis by simp
qed

lemma dot_sum:
  "length row = length v \<Longrightarrow> dot row v = (\<Sum>j<length v. row ! j * v ! j)"
  by (simp add: dot_def sum_list_sum_nth atLeast0LessThan)

lemma matvec_table:
  assumes "length v = d"
  shows "matvec (map (\<lambda>i. map (\<lambda>j. f i j) [0..<d]) [0..<d]) v =
         Inr (map (\<lambda>i. \<Sum>j<d. f i j * v ! j) [0..<d])"
proof -
  have "dot (map (\<lambda>j. f i j) [0..<d]) v = (\<Sum>j<d. f i j * v ! j)" for i
    using assms by (simp add: dot_sum)
  then show ?thesis using assms by (simp add: matvec_def list_all_iff)
qed

lemma apply_gate_valid:
  assumes "t < n_qubits c" "is_2x2 gate" "length (state c) = 2 ^ n_qubits c"
  shows "apply_gate c gate (int t) =
     Inr (c\<lparr>state := map (\<lambda>i. \<Sum>j<2 ^ n_qubits c. embed_entry (n_qubits c) gate t i j * state c ! j)
                      [0..<2 ^ n_qubits c]\<rparr>)"
  unfolding apply_gate_def Let_def apply_gate_matrix [OF assms(1,2)]
  by (simp add: rbind_def embed_gate_def matvec_table [OF assms(3)])

section \<open>The operator built by entangle_qubits\<close>

lemma bit_char_eq_1: "bit_char b = CHR ''1'' \<longleftrightarrow> b"
  by (simp add: bit_char_def)

lemma bit_char_flip: "(if bit_char b = CHR ''0'' then CHR ''1'' else CHR ''0'') = bit_char (\<not> b)"
  by (simp add: bit_char_def)

lemma py_assign_nat: "k < length xs \<Longrightarrow> py_assign xs (int k) v = Inr (xs[k := v])"
  by (simp add: py_assign_def)

lemma square_swap4: "square d m \<Longrightarrow> square d (swap4 m i j)"
  by (simp add: swap4_def square_put)

lemma cnot_row_valid:
  assumes "c < n" "t < n" "i < 2 ^ n" "square (2 ^ n) m"
  shows "cnot_row n (int c) (int t) i m =
     Inr (if qbit n i c then swap4 m i (flipq n i t) else m)"
proof -
  have n: "0 < n" using assms(1) by simp
  have len: "length (format_bin n i) = n" using n assms(3) by (rule format_bin_length)
  have fl: "flipq n i t < 2 ^ n" using assms(2,3) by (rule flipq_less)
  have ic: "py_index (format_bin n i) (int c) = Inr (bit_char (qbit n i c))"
    using assms(1,3) n by (simp add: py_index_nat len format_bin_nth qbit_def)
  have it: "py_index (format_bin n i) (int t) = Inr (bit_char (qbit n i t))"
    using assms(2,3) n by (simp add: py_index_nat len format_bin_nth qbit_def)
  have asg: "py_assign (format_bin n i) (int t) (bit_char (\<not> qbit n i t)) =
      Inr (map (\<lambda>k. bit_char (qbit n (flipq n i t) k)) [0..<n])"
    using assms(2,3) by (simp add: py_assign_nat len flipped_string)
  have parse: "py_int_base2 (map (\<lambda>k. bit_char (qbit n (flipq n i t) k)) [0..<n]) =
      Inr (flipq n i t)"
    using n fl by (rule py_int_base2_bits)
  have sets: "rbind (mat_set m i i 0) (\<lambda>g1.
        rbind (mat_set g1 i (flipq n i t) 1) (\<lambda>g2.
        rbind (mat_set g2 (flipq n i t) (flipq n i t) 0) (\<lambda>g3.
        mat_set g3 (flipq n i t) i 1))) = Inr (swap4 m i (flipq n i t))"
    using assms(3,4) fl
    by (simp add: mat_set_square [where d = "2 ^ n"] square_put rbind_def swap4_def)
  show ?thesis
    unfolding cnot_row_def Let_def ic
    by (simp add: rbind_def bit_char_eq_1 it bit_char_flip asg parse sets [unfolded rbind_def])
qed

lemma swap4_nth:
  assumes "square d m" "i < d" "j < d" "i \<noteq> j" "a < d" "b < d"
  shows "swap4 m i j ! a ! b =
    (if (a = i \<or> a = j) \<and> (b = i \<or> b = j) then (if a = b then 0 else 1) else m ! a ! b)"
  using assms by (auto simp: swap4_def put_nth [where d = d] square_put)

lemma fold_swaps:
  assumes "square d m" "set is \<subseteq> {..<d}" "\<And>i. i < d \<Longrightarrow> fl i < d \<and> fl i \<noteq> i"
  shows "square d (fold (\<lambda>i m. if ctl i then swap4 m i (fl i) else m) is m) \<and>
    (\<forall>a<d. \<forall>b<d. fold (\<lambda>i m. if ctl i then swap4 m i (fl i) else m) is m ! a ! b =
       (if \<exists>i\<in>set is. ctl i \<and> (a = i \<or> a = fl i) \<and> (b = i \<or> b = fl i)
        then (if a = b then 0 else 1) else m ! a ! b))"
  using assms(1,2)
proof (induction "is" arbitrary: m)
  case Nil
  then show ?case by simp
next
  case (Cons i "is")
  let ?step = "\<lambda>i m. if ctl i then swap4 m i (fl i) else m"
  have i: "i < d" "fl i < d" "fl i \<noteq> i" using Cons.prems assms(3) by auto
  have sq: "square d (?step i m)" using Cons.prems by (simp add: square_swap4)
  have ent: "?step i m ! a ! b =
      (if ctl i \<and> (a = i \<or> a = fl i) \<and> (b = i \<or> b = fl i)
       then (if a = b then 0 else 1) else m ! a ! b)" if "a < d" "b < d" for a b
    using swap4_nth [OF Cons.prems(1) i(1,2) i(3) [symmetric] that] by simp
  have IH: "square d (fold ?step is (?step i m)) \<and>
    (\<forall>a<d. \<forall>b<d. fold ?step is (?step i m) ! a ! b =
       (if \<exists>i\<in>set is. ctl i \<and> (a = i \<or> a = fl i) \<and> (b = i \<or> b = fl i)
        then (if a = b then 0 else 1) else ?step i m ! a ! b))"
    by (rule Cons.IH) (use sq Cons.prems in auto)
  show ?case
  proof (intro conjI allI impI)
    show "square d (fold ?step (i # is) m)" using IH by simp
  next
    fix a b assume ab: "a < d" "b < d"
    have "fold ?step (i # is) m ! a ! b =
       (if \<exists>i\<in>set is. ctl i \<and> (a = i \<or> a = fl i) \<and> (b = i \<or> b = fl i)
        then (if a = b then 0 else 1) else ?step i m ! a ! b)"
      using IH ab by simp
    also have "\<dots> = (if \<exists>i\<in>set (i # is). ctl i \<and> (a = i \<or> a = fl i) \<and> (b = i \<or> b = fl i)
        then (if a = b then 0 else 1) else m ! a ! b)"
      unfolding ent [OF ab] by auto
    finally show "fold ?step (i # is) m ! a ! b =
       (if \<exists>i\<in>set (i # is). ctl i \<and> (a = i \<or> a = fl i) \<and> (b = i \<or> b = fl i)
        then (if a = b then 0 else 1) else m ! a ! b)" .
  qed
qed

lemma cnot_perm_less: "t < n \<Longrightarrow> a < 2 ^ n \<Longrightarrow> cnot_perm n c t a < 2 ^ n"
  by (simp add: cnot_perm_def flipq_less)

lemma entangle_matrix:
  assumes "c < n" "t < n"
  shows "for_each [0..<2 ^ n] (cnot_row n (int c) (int t)) (eye (2 ^ n)) =
     Inr (map (\<lambda>a. map (\<lambda>b. if b = cnot_perm n c t a then 1 else 0) [0..<2 ^ n]) [0..<2 ^ n])"
proof -
  let ?d = "2 ^ n :: nat"
  let ?fl = "\<lambda>i. flipq n i t"
  let ?step = "\<lambda>i m. if qbit n i c then swap4 m i (?fl i) else m"
  let ?M = "fold ?step [0..<?d] (eye ?d)"
  have loop: "for_each [0..<?d] (cnot_row n (int c) (int t)) (eye ?d) = Inr ?M \<and> square ?d ?M"
  proof (rule for_each_pure [where P = "square ?d"])
    fix i s assume "i \<in> set [0..<?d]" "square ?d s"
    then show "cnot_row n (int c) (int t) i s = Inr (?step i s) \<and> square ?d (?step i s)"
      using assms by (simp add: cnot_row_valid square_swap4)
  qed (rule square_eye)
  have ent: "square ?d ?M \<and>
    (\<forall>a<?d. \<forall>b<?d. ?M ! a ! b =
       (if \<exists>i\<in>set [0..<?d]. qbit n i c \<and> (a = i \<or> a = ?fl i) \<and> (b = i \<or> b = ?fl i)
        then (if a = b then 0 else 1) else eye ?d ! a ! b))"
    by (rule fold_swaps) (use assms in \<open>auto simp: square_eye flipq_less flipq_neq\<close>)
  have "?M = map (\<lambda>a. map (\<lambda>b. if b = cnot_perm n c t a then 1 else 0) [0..<?d]) [0..<?d]"
  proof (rule square_entries_eq [where d = ?d])
    show "square ?d ?M" using ent by blast
    show "square ?d (map (\<lambda>a. map (\<lambda>b. if b = cnot_perm n c t a then 1 else 0) [0..<?d]) [0..<?d])"
      by (rule square_table)
  next
    fix a b assume ab: "a < ?d" "b < ?d"
    have fa: "?fl a < ?d" using assms(2) ab(1) by (rule flipq_less)
    have ex: "(\<exists>i\<in>set [0..<?d]. qbit n i c \<and> (a = i \<or> a = ?fl i) \<and> (b = i \<or> b = ?fl i)) \<longleftrightarrow>
        (qbit n a c \<or> qbit n (?fl a) c) \<and> (b = a \<or> b = ?fl a)"
      (is "?L \<longleftrightarrow> ?R")
    proof
      assume ?L
      then obtain i where i: "qbit n i c" "a = i \<or> a = ?fl i" "b = i \<or> b = ?fl i" by blast
      from i(2) show ?R
      proof
        assume "a = i"
        with i show ?R by auto
      next
        assume "a = ?fl i"
        then have "?fl a = i" by (simp add: flipq_flipq)
        with i \<open>a = ?fl i\<close> show ?R by auto
      qed
    next
      assume R: ?R
      then have "qbit n a c \<or> qbit n (?fl a) c" ..
      then show ?L
      proof
        assume "qbit n a c"
        with R ab show ?L by (intro bexI [of _ a]) auto
      next
        assume "qbit n (?fl a) c"
        with R fa show ?L by (intro bexI [of _ "?fl a"]) (auto simp: flipq_flipq)
      qed
    qed
    have neq: "?fl a \<noteq> a" by (rule flipq_neq)
    have "?M ! a ! b =
       (if \<exists>i\<in>set [0..<?d]. qbit n i c \<and> (a = i \<or> a = ?fl i) \<and> (b = i \<or> b = ?fl i)
        then (if a = b then 0 else 1) else eye ?d ! a ! b)"
      using ent ab by blast
    also have "\<dots> = (if (qbit n a c \<or> qbit n (?fl a) c) \<and> (b = a \<or> b = ?fl a)
        then (if a = b then 0 else 1) else eye ?d ! a ! b)"
      unfolding ex ..
    also have "\<dots> = (if b = cnot_perm n c t a then 1 else 0)"
      using neq ab by (auto simp: cnot_perm_def eye_nth)
    finally show "?M ! a ! b =
        map (\<lambda>a. map (\<lambda>b. if b = cnot_perm n c t a then 1 else 0) [0..<?d]) [0..<?d] ! a ! b"
      using ab by simp
  qed
  with loop show ?thesis by simp
qed

lemma sum_pick: "(p::nat) < d \<Longrightarrow> (\<Sum>j<d. (if j = p then 1 else 0) * f j) = (f p :: complex)"
proof -
  assume p: "(p::nat) < d"
  have "(\<Sum>j<d. (if j = p then 1 else 0) * f j) = (\<Sum>j\<in>{..<d}. if j = p then f j else 0)"
    by (rule sum.cong) auto
  also have "\<dots> = f p" using p by (subst sum.delta) simp_all
  finally show ?thesis .
qed

lemma entangle_valid:
  assumes "c < n_qubits C" "t < n_qubits C" "length (state C) = 2 ^ n_qubits C"
  shows "entangle_qubits C (int c) (int t) =
     Inr (C\<lparr>state := map (\<lambda>a. state C ! cnot_perm (n_qubits C) c t a) [0..<2 ^ n_qubits C]\<rparr>)"
proof -
  have "map (\<lambda>i. \<Sum>j<2 ^ n_qubits C. (if j = cnot_perm (n_qubits C) c t i then 1 else 0) * state C ! j)
          [0..<2 ^ n_qubits C] =
        map (\<lambda>a. state C ! cnot_perm (n_qubits C) c t a) [0..<2 ^ n_qubits C]"
    by (rule map_cong) (use assms(2) in \<open>auto simp: sum_pick cnot_perm_less\<close>)
  then show ?thesis
    unfolding entangle_qubits_def Let_def entangle_matrix [OF assms(1,2)]
    by (simp add: rbind_def matvec_table [OF assms(3)])
qed

lemma cnot_perm_same: "t < n \<Longrightarrow> cnot_perm n t t a = flipq n a t"
  by (simp add: cnot_perm_def qbit_flipq)

lemma cnot_perm_distinct:
  "c < n \<Longrightarrow> t < n \<Longrightarrow> c \<noteq> t \<Longrightarrow>
   cnot_perm n c t a = (if qbit n a c then flipq n a t else a)"
  by (simp add: cnot_perm_def qbit_flipq)

lemma cnot_perm_involution:
  "c < n \<Longrightarrow> t < n \<Longrightarrow> c \<noteq> t \<Longrightarrow> cnot_perm n c t (cnot_perm n c t a) = a"
  by (simp add: cnot_perm_distinct qbit_flipq flipq_flipq)

lemma embed_entry_X:
  assumes "t < n" "i < 2 ^ n" "j < 2 ^ n"
  shows "embed_entry n gate_X t i j = (if j = flipq n i t then 1 else 0)"
  using assms flipq_neq [of n i t]
  by (auto simp: embed_entry_def agree_off_iff gate_entry_def gate_X_def qbit_flipq)

lemma is_2x2_X: "is_2x2 gate_X"
  by (simp add: is_2x2_def gate_X_def)

lemma apply_gate_valid_int:
  assumes "0 \<le> target" "target < int (n_qubits c)" "is_2x2 gate"
    and "length (state c) = 2 ^ n_qubits c"
  shows "apply_gate c gate target =
     Inr (c\<lparr>state := map (\<lambda>i. \<Sum>j<2 ^ n_qubits c.
                 embed_entry (n_qubits c) gate (nat target) i j * state c ! j)
               [0..<2 ^ n_qubits c]\<rparr>)"
  using apply_gate_valid [of "nat target" c gate] assms by simp

lemma entangle_valid_int:
  assumes "0 \<le> control" "control < int (n_qubits c)" "0 \<le> target" "target < int (n_qubits c)"
    and "length (state c) = 2 ^ n_qubits c"
  shows "entangle_qubits c control target =
     Inr (c\<lparr>state := map (\<lambda>a. state c ! cnot_perm (n_qubits c) (nat control) (nat target) a)
               [0..<2 ^ n_qubits c]\<rparr>)"
  using entangle_valid [of "nat control" c "nat target"] assms by simp

lemma upt4: "[0..<4] = [0, 1, 2, 3]" "[0..<2] = [0, 1]"
  by (simp_all add: upt_rec)

lemma lt4: "{..<4::nat} = {0, 1, 2, 3}" "{..<2::nat} = {0, 1}"
  by auto

section \<open>Preservation of the norm\<close>

lemma unitary2_pair:
  assumes "cnj a * a + cnj c * c = 1" "cnj b * b + cnj d * d = 1" "cnj a * b + cnj c * d = 0"
  shows "(cmod (a * x + b * y))\<^sup>2 + (cmod (c * x + d * y))\<^sup>2 = (cmod x)\<^sup>2 + (cmod y)\<^sup>2"
proof -
  have c3: "cnj b * a + cnj d * c = 0"
    using arg_cong [OF assms(3), of cnj] by (simp add: mult.commute)
  have "complex_of_real ((cmod (a * x + b * y))\<^sup>2 + (cmod (c * x + d * y))\<^sup>2) =
      (a * x + b * y) * cnj (a * x + b * y) + (c * x + d * y) * cnj (c * x + d * y)"
    by (simp only: of_real_add complex_norm_square)
  also have "\<dots> = x * cnj x * (cnj a * a + cnj c * c) + y * cnj y * (cnj b * b + cnj d * d)
      + y * cnj x * (cnj a * b + cnj c * d) + x * cnj y * (cnj b * a + cnj d * c)"
    by (simp add: algebra_simps)
  also have "\<dots> = x * cnj x + y * cnj y"
    by (simp only: assms c3) simp
  also have "\<dots> = complex_of_real ((cmod x)\<^sup>2 + (cmod y)\<^sup>2)"
    by (simp only: of_real_add complex_norm_square)
  finally show ?thesis by (simp only: of_real_eq_iff)
qed

lemma norm_sq_nth: "norm_sq s = (\<Sum>i<length s. (cmod (s ! i))\<^sup>2)"
  by (simp add: norm_sq_def sum_list_sum_nth atLeast0LessThan)

lemma norm_sq_table: "norm_sq (map f [0..<d]) = (\<Sum>i<d. (cmod (f i))\<^sup>2)"
  by (simp add: norm_sq_nth)

lemma norm_sq_init: "norm_sq ((replicate (2 ^ n) 0)[0 := 1]) = 1"
proof -
  have "(replicate (2 ^ n) 0)[0 := 1::complex] = 1 # replicate (2 ^ n - 1) 0"
    by (cases "2 ^ n :: nat") simp_all
  then show ?thesis by (simp add: norm_sq_def sum_list_replicate)
qed

lemma sum_involution:
  fixes F :: "nat \<Rightarrow> real"
  assumes "\<And>i. i < d \<Longrightarrow> p i < d" "\<And>i. i < d \<Longrightarrow> p (p i) = i"
  shows "(\<Sum>i<d. F (p i)) = (\<Sum>i<d. F i)"
  by (rule sum.reindex_bij_witness [of _ p p]) (use assms in auto)

lemma sum_pairs:
  fixes F H :: "nat \<Rightarrow> real"
  assumes "\<And>i. i < d \<Longrightarrow> p i < d" "\<And>i. i < d \<Longrightarrow> p (p i) = i"
    and "\<And>i. i < d \<Longrightarrow> F i + F (p i) = H i + H (p i)"
  shows "(\<Sum>i<d. F i) = (\<Sum>i<d. H i)"
proof -
  have "(\<Sum>i<d. F i) + (\<Sum>i<d. F (p i)) = (\<Sum>i<d. H i) + (\<Sum>i<d. H (p i))"
    unfolding sum.distrib [symmetric] by (rule sum.cong) (use assms(3) in auto)
  then show ?thesis
    using sum_involution [OF assms(1,2), of F] sum_involution [OF assms(1,2), of H] by simp
qed

lemma embed_row_sum:
  assumes "t < n" "i < 2 ^ n"
  shows "(\<Sum>j<2 ^ n. embed_entry n g t i j * s ! j) =
     gate_entry n g t i i * s ! i + gate_entry n g t i (flipq n i t) * s ! flipq n i t"
proof -
  have fl: "flipq n i t < 2 ^ n" using assms by (rule flipq_less)
  have "(\<Sum>j<2 ^ n. embed_entry n g t i j * s ! j) =
      (\<Sum>j\<in>{i, flipq n i t}. embed_entry n g t i j * s ! j)"
    by (rule sum.mono_neutral_right)
      (use assms fl in \<open>auto simp: embed_entry_def agree_off_iff\<close>)
  also have "\<dots> = embed_entry n g t i i * s ! i
      + embed_entry n g t i (flipq n i t) * s ! flipq n i t"
    using flipq_neq [of n i t] by simp
  finally show ?thesis
    using assms fl by (simp add: embed_entry_def agree_off_iff)
qed

lemma unitary2_eqs:
  assumes "unitary2 g"
  shows "cnj (g ! 0 ! 0) * g ! 0 ! 0 + cnj (g ! 1 ! 0) * g ! 1 ! 0 = 1"
    and "cnj (g ! 0 ! 1) * g ! 0 ! 1 + cnj (g ! 1 ! 1) * g ! 1 ! 1 = 1"
    and "cnj (g ! 0 ! 0) * g ! 0 ! 1 + cnj (g ! 1 ! 0) * g ! 1 ! 1 = 0"
  using assms by (simp_all add: unitary2_def)

lemma apply_gate_norm:
  assumes "t < n" "unitary2 g" "length s = 2 ^ n"
  shows "norm_sq (map (\<lambda>i. \<Sum>j<2 ^ n. embed_entry n g t i j * s ! j) [0..<2 ^ n]) = norm_sq s"
proof -
  let ?fl = "\<lambda>i. flipq n i t"
  let ?row = "\<lambda>i. \<Sum>j<2 ^ n. embed_entry n g t i j * s ! j"
  note u = unitary2_eqs [OF assms(2)]
  have pair: "(cmod (?row i))\<^sup>2 + (cmod (?row (?fl i)))\<^sup>2 =
      (cmod (s ! i))\<^sup>2 + (cmod (s ! ?fl i))\<^sup>2" if i: "i < 2 ^ n" for i
  proof -
    have fl: "?fl i < 2 ^ n" using assms(1) i by (rule flipq_less)
    have r1: "?row i = gate_entry n g t i i * s ! i + gate_entry n g t i (?fl i) * s ! ?fl i"
      using assms(1) i by (rule embed_row_sum)
    have r2: "?row (?fl i) =
        gate_entry n g t (?fl i) (?fl i) * s ! ?fl i + gate_entry n g t (?fl i) i * s ! i"
      using embed_row_sum [OF assms(1) fl, of g s] by (simp add: flipq_flipq)
    show ?thesis
    proof (cases "qbit n i t")
      case False
      then have "?row i = g ! 0 ! 0 * s ! i + g ! 0 ! 1 * s ! ?fl i"
        and "?row (?fl i) = g ! 1 ! 0 * s ! i + g ! 1 ! 1 * s ! ?fl i"
        using assms(1) by (simp_all add: r1 r2 gate_entry_def qbit_flipq)
      then show ?thesis using unitary2_pair [OF u] by simp
    next
      case True
      then have "?row (?fl i) = g ! 0 ! 0 * s ! ?fl i + g ! 0 ! 1 * s ! i"
        and "?row i = g ! 1 ! 0 * s ! ?fl i + g ! 1 ! 1 * s ! i"
        using assms(1) by (simp_all add: r1 r2 gate_entry_def qbit_flipq)
      then show ?thesis using unitary2_pair [OF u, of "s ! ?fl i" "s ! i"] by simp
    qed
  qed
  have "(\<Sum>i<2 ^ n. (cmod (?row i))\<^sup>2) = (\<Sum>i<2 ^ n. (cmod (s ! i))\<^sup>2)"
    by (rule sum_pairs [where p = ?fl]) (use assms(1) pair in \<open>auto simp: flipq_less flipq_flipq\<close>)
  then show ?thesis by (simp add: norm_sq_table norm_sq_nth assms(3))
qed

lemma entangle_norm:
  assumes "c < n" "t < n" "c \<noteq> t" "length s = 2 ^ n"
  shows "norm_sq (map (\<lambda>a. s ! cnot_perm n c t a) [0..<2 ^ n]) = norm_sq s"
proof -
  have "(\<Sum>i<2 ^ n. (cmod (s ! cnot_perm n c t i))\<^sup>2) = (\<Sum>i<2 ^ n. (cmod (s ! i))\<^sup>2)"
    by (rule sum_involution [where p = "cnot_perm n c t" and F = "\<lambda>i. (cmod (s ! i))\<^sup>2"])
      (use assms in \<open>auto simp: cnot_perm_less cnot_perm_involution\<close>)
  then show ?thesis by (simp add: norm_sq_table norm_sq_nth assms(4))
qed

lemma unit_state_init: "unit_state n (init_circuit n d)"
  by (simp add: unit_state_def init_circuit_def norm_sq_init)

lemma apply_op_unit:
  assumes "unit_state n c" "valid_op n x"
  shows "\<exists>c'. apply_op c x = Inr c' \<and> unit_state n c'"
proof (cases x)
  case (Gate g t)
  with assms have v: "unitary2 g" "0 \<le> t" "t < int (n_qubits c)" "nat t < n"
    and c: "n_qubits c = n" "length (state c) = 2 ^ n_qubits c" "norm_sq (state c) = 1"
    by (auto simp: unit_state_def)
  from v(1) have "is_2x2 g" by (simp add: unitary2_def)
  from apply_gate_valid_int [OF v(2,3) this c(2)] apply_gate_norm [OF v(4) v(1), of "state c"] c
  show ?thesis by (simp add: Gate unit_state_def)
next
  case (Entangle ct t)
  with assms have v: "0 \<le> ct" "ct < int (n_qubits c)" "0 \<le> t" "t < int (n_qubits c)"
      "nat ct < n" "nat t < n" "nat ct \<noteq> nat t"
    and c: "n_qubits c = n" "length (state c) = 2 ^ n_qubits c" "norm_sq (state c) = 1"
    by (auto simp: unit_state_def)
  from entangle_valid_int [OF v(1-4) c(2)] entangle_norm [OF v(5-7), of "state c"] c
  show ?thesis by (simp add: Entangle unit_state_def)
qed

lemma run_unit:
  "unit_state n c \<Longrightarrow> list_all (valid_op n) ops \<Longrightarrow> \<exists>c'. run ops c = Inr c' \<and> unit_state n c'"
proof (induction ops arbitrary: c)
  case Nil
  then show ?case by simp
next
  case (Cons x xs)
  then obtain c1 where c1: "apply_op c x = Inr c1" "unit_state n c1"
    using apply_op_unit [of n c x] by auto
  with Cons.IH [of c1] Cons.prems show ?case by (simp add: rbind_def)
qed

lemma unitary2_X: "unitary2 gate_X"
  by (simp add: unitary2_def is_2x2_def gate_X_def)

lemma unitary2_Y: "unitary2 gate_Y"
  by (simp add: unitary2_def is_2x2_def gate_Y_def)

lemma unitary2_Z: "unitary2 gate_Z"
  by (simp add: unitary2_def is_2x2_def gate_Z_def)

lemma unitary2_H: "unitary2 gate_H"
proof -
  have "complex_of_real (1 / sqrt 2) * complex_of_real (1 / sqrt 2) = 1 / 2"
    unfolding of_real_mult [symmetric] by simp
  then have h: "1 / complex_of_real (sqrt 2) * (1 / complex_of_real (sqrt 2)) = 1 / 2"
    by simp
  show ?thesis
    using h by (simp add: unitary2_def is_2x2_def gate_H_def)
qed

section \<open>Calls that raise\<close>

lemma for_each_error_kind:
  assumes "\<And>x s e'. x \<in> set xs \<Longrightarrow> body x s = Inl e' \<Longrightarrow> e' = e"
  shows "for_each xs body s = Inl e' \<Longrightarrow> e' = e"
  using assms
proof (induction xs arbitrary: s)
  case Nil
  then show ?case by simp
next
  case (Cons y ys)
  show ?case
  proof (cases "body y s")
    case (Inl e'')
    with Cons.prems show ?thesis by (auto simp: rbind_def)
  next
    case (Inr s')
    with Cons.prems(1) have "for_each ys body s' = Inl e'" by (simp add: rbind_def)
    then show ?thesis by (rule Cons.IH) (use Cons.prems(2) in auto)
  qed
qed

lemma for_each_fails:
  assumes "\<And>y s e'. y \<in> set xs \<Longrightarrow> body y s = Inl e' \<Longrightarrow> e' = e"
    and "x \<in> set xs" "\<And>s. body x s = Inl e"
  shows "for_each xs body s = Inl e"
  using assms(1,2)
proof (induction xs arbitrary: s)
  case Nil
  then show ?case by simp
next
  case (Cons y ys)
  show ?case
  proof (cases "body y s")
    case (Inl e')
    with Cons.prems(1) [of y s e'] show ?thesis by (simp add: rbind_def)
  next
    case (Inr s')
    with assms(3) [of s] have "y \<noteq> x" by auto
    with Cons.prems(2) have "x \<in> set ys" by simp
    have "for_each ys body s' = Inl e"
      by (rule Cons.IH) (use Cons.prems(1) \<open>x \<in> set ys\<close> in auto)
    with Inr show ?thesis by (simp add: rbind_def)
  qed
qed

lemma to_bin_chars: "set (to_bin i) \<subseteq> {CHR ''0'', CHR ''1''}"
proof (induction i rule: to_bin.induct)
  case (1 i)
  show ?case
  proof (cases "i < 2")
    case True
    then show ?thesis by (subst to_bin.simps) (simp add: bit_char_def)
  next
    case False
    with 1 show ?thesis by (subst to_bin.simps) (auto simp: bit_char_def)
  qed
qed

lemma format_bin_chars: "set (format_bin n i) \<subseteq> {CHR ''0'', CHR ''1''}"
  using to_bin_chars [of i] by (auto simp: format_bin_def)

lemma py_index_mem: "py_index xs k = Inr a \<Longrightarrow> a \<in> set xs"
  by (auto simp: py_index_def Let_def split: if_splits)

lemma py_index_error: "py_index xs k = Inl e \<Longrightarrow> e = IndexError"
  by (auto simp: py_index_def Let_def split: if_splits)

lemma py_index_outside:
  "k < - int (length xs) \<or> int (length xs) \<le> k \<Longrightarrow> py_index xs k = Inl IndexError"
  by (auto simp: py_index_def Let_def)

lemma py_int_digit: "a \<in> {CHR ''0'', CHR ''1''} \<Longrightarrow> py_int a = Inr (if a = CHR ''1'' then 1 else 0)"
  by (auto simp: py_int_def)

lemma gate_cell_error:
  assumes "gate_cell n gate target i j m = Inl e"
  shows "e = IndexError"
proof -
  have d: "py_int a = Inr (if a = CHR ''1'' then 1 else 0)"
    if "py_index (format_bin n x) target = Inr a" for a x
    using py_index_mem [OF that] format_bin_chars [of n x] by (intro py_int_digit) auto
  show ?thesis
    using assms
    by (auto simp: gate_cell_def Let_def rbind_def d gate_at_def mat_set_def
        dest: py_index_error split: if_splits sum.splits)
qed

lemma apply_gate_loop_fails:
  assumes "i < 2 ^ n" "j < 2 ^ n" "\<And>m. gate_cell n gate target i j m = Inl IndexError"
  shows "for_each [0..<2 ^ n] (\<lambda>i. for_each [0..<2 ^ n] (\<lambda>j. gate_cell n gate target i j)) m
     = Inl IndexError"
proof (rule for_each_fails [where x = i])
  fix y s e'
  assume "for_each [0..<2 ^ n] (gate_cell n gate target y) s = Inl e'"
  then show "e' = IndexError"
    by (rule for_each_error_kind [rotated]) (rule gate_cell_error)
next
  show "i \<in> set [0..<2 ^ n]" using assms(1) by simp
next
  fix s
  show "for_each [0..<2 ^ n] (gate_cell n gate target i) s = Inl IndexError"
    by (rule for_each_fails [where x = j]) (use assms(2,3) gate_cell_error in auto)
qed

lemma apply_gate_index_outside:
  assumes "0 < n_qubits c" "target < - int (n_qubits c) \<or> int (n_qubits c) \<le> target"
  shows "apply_gate c gate target = Inl IndexError"
proof -
  let ?n = "n_qubits c"
  have len: "length (format_bin ?n 0) = ?n" using assms(1) by (simp add: format_bin_length)
  have "gate_cell ?n gate target 0 0 m = Inl IndexError" for m
    using assms(2) by (simp add: gate_cell_def Let_def list_all_iff py_index_outside len rbind_def)
  then have "for_each [0..<2 ^ ?n] (\<lambda>i. for_each [0..<2 ^ ?n] (\<lambda>j. gate_cell ?n gate target i j))
      (eye (2 ^ ?n)) = Inl IndexError"
    by (intro apply_gate_loop_fails [where i = 0 and j = 0]) simp_all
  then show ?thesis by (simp add: apply_gate_def rbind_def)
qed

lemma format_bin_top: "0 < n \<Longrightarrow> format_bin n (mask n) = replicate n (CHR ''1'')"
proof -
  assume n: "0 < n"
  have "(mask n :: nat) < 2 ^ n" by simp
  then have "format_bin n (mask n) = map (\<lambda>k. CHR ''1'') [0..<n]"
    using n by (simp add: format_bin_eq_map qbit_def bit_char_def bit_mask_iff)
  then show ?thesis by (simp add: map_replicate_const)
qed

lemma py_index_replicate:
  "- int n \<le> k \<Longrightarrow> k < int n \<Longrightarrow> py_index (replicate n a) k = Inr a"
  by (auto simp: py_index_def Let_def)

lemma gate_at_small:
  "has_shape g r k \<Longrightarrow> r < 2 \<or> k < 2 \<Longrightarrow> gate_at g 1 1 = Inl IndexError"
  by (auto simp: has_shape_def gate_at_def list_all_length)

lemma apply_gate_small_gate:
  assumes "0 < n_qubits c" "has_shape gate r k" "r < 2 \<or> k < 2"
  shows "apply_gate c gate target = Inl IndexError"
proof (cases "target < - int (n_qubits c) \<or> int (n_qubits c) \<le> target")
  case True
  with assms(1) show ?thesis by (rule apply_gate_index_outside)
next
  case False
  let ?n = "n_qubits c"
  let ?top = "mask ?n :: nat"
  have idx: "py_index (format_bin ?n ?top) target = Inr (CHR ''1'')"
    using False assms(1) by (simp add: format_bin_top py_index_replicate)
  have "gate_cell ?n gate target ?top ?top m = Inl IndexError" for m
    using gate_at_small [OF assms(2,3)]
    by (simp add: gate_cell_def Let_def list_all_iff idx rbind_def py_int_def)
  then have "for_each [0..<2 ^ ?n] (\<lambda>i. for_each [0..<2 ^ ?n] (\<lambda>j. gate_cell ?n gate target i j))
      (eye (2 ^ ?n)) = Inl IndexError"
    by (intro apply_gate_loop_fails [where i = ?top and j = ?top]) simp_all
  then show ?thesis by (simp add: apply_gate_def rbind_def)
qed

lemma py_assign_ok:
  "py_assign xs k v = Inr ys \<Longrightarrow> ys \<noteq> [] \<and> set ys \<subseteq> insert v (set xs)"
  by (auto simp: py_assign_def Let_def split: if_splits dest: set_update_subset_insert [THEN subsetD])

lemma py_assign_error: "py_assign xs k v = Inl e \<Longrightarrow> e = IndexError"
  by (auto simp: py_assign_def Let_def split: if_splits)

lemma py_int_base2_ok:
  "s \<noteq> [] \<Longrightarrow> set s \<subseteq> {CHR ''0'', CHR ''1''} \<Longrightarrow> \<exists>v. py_int_base2 s = Inr v"
  by (auto simp: py_int_base2_def list_all_iff)

lemma mat_set_error: "mat_set m i j v = Inl e \<Longrightarrow> e = IndexError"
  by (auto simp: mat_set_def split: if_splits)

lemma cnot_row_error:
  assumes "cnot_row n control target i m = Inl e"
  shows "e = IndexError"
proof -
  have p: "\<exists>w. py_int_base2 ys = Inr w"
    if "py_assign (format_bin n i) target v = Inr ys" "v = CHR ''0'' \<or> v = CHR ''1''"
    for ys v
    using py_assign_ok [OF that(1)] format_bin_chars [of n i] that(2)
    by (intro py_int_base2_ok) auto
  show ?thesis
    using assms
    by (auto simp: cnot_row_def Let_def rbind_def
        dest: py_index_error py_assign_error mat_set_error p
        split: if_splits sum.splits)
qed

lemma entangle_index_outside:
  assumes "0 < n_qubits c"
    and "control < - int (n_qubits c) \<or> int (n_qubits c) \<le> control \<or>
         target < - int (n_qubits c) \<or> int (n_qubits c) \<le> target"
  shows "entangle_qubits c control target = Inl IndexError"
proof -
  let ?n = "n_qubits c"
  let ?top = "mask ?n :: nat"
  have "\<exists>i<2 ^ ?n. \<forall>m. cnot_row ?n control target i m = Inl IndexError"
  proof (cases "control < - int ?n \<or> int ?n \<le> control")
    case True
    have "length (format_bin ?n 0) = ?n" using assms(1) by (simp add: format_bin_length)
    with True have "cnot_row ?n control target 0 m = Inl IndexError" for m
      by (simp add: cnot_row_def Let_def py_index_outside rbind_def)
    then show ?thesis by (intro exI [of _ 0]) simp
  next
    case False
    with assms(2) have t: "target < - int ?n \<or> int ?n \<le> target" by blast
    have "py_index (format_bin ?n ?top) control = Inr (CHR ''1'')"
      using False assms(1) by (simp add: format_bin_top py_index_replicate)
    moreover have "py_index (format_bin ?n ?top) target = Inl IndexError"
      using t assms(1) by (simp add: format_bin_top py_index_outside)
    ultimately have "cnot_row ?n control target ?top m = Inl IndexError" for m
      by (simp add: cnot_row_def Let_def rbind_def)
    then show ?thesis by (intro exI [of _ ?top]) simp
  qed
  then obtain i where i: "i < 2 ^ ?n" "\<And>m. cnot_row ?n control target i m = Inl IndexError"
    by blast
  have "for_each [0..<2 ^ ?n] (cnot_row ?n control target) (eye (2 ^ ?n)) = Inl IndexError"
    by (rule for_each_fails [where x = i]) (use i cnot_row_error in auto)
  then show ?thesis by (simp add: entangle_qubits_def rbind_def)
qed

section \<open>The transform and the pattern metrics\<close>

lemma sum_list_map2_upt:
  fixes f :: "'a \<Rightarrow> nat \<Rightarrow> complex"
  shows "sum_list (map2 f xs [0..<length xs]) = (\<Sum>t<length xs. f (xs ! t) t)"
  by (simp add: sum_list_sum_nth atLeast0LessThan)

lemma quantum_feature_extraction_nth:
  assumes "k < length signal"
  shows "quantum_feature_extraction signal ! k = dft_coefficient signal k"
proof -
  have "quantum_feature_extraction signal ! k =
      (\<Sum>t<length signal. of_real (signal ! t) *
         exp (- 2 * \<i> * of_real pi * of_nat k * of_nat t / of_nat (length signal)))"
    using assms by (simp add: quantum_feature_extraction_def Let_def sum_list_map2_upt)
  also have "\<dots> = dft_coefficient signal k"
    unfolding dft_coefficient_def by (rule sum.cong) (simp_all add: mult_ac)
  finally show ?thesis .
qed

lemma quantum_feature_extraction_length:
  "length (quantum_feature_extraction signal) = length signal"
  by (simp add: quantum_feature_extraction_def Let_def)

lemma l2norm_zeros: "l2norm (replicate L 0) = 0"
  by (simp add: l2norm_def sum_list_replicate)

lemma prepare_zeros: "prepare_quantum_state (replicate L 0) = replicate L 0"
  by (simp add: prepare_quantum_state_def)

lemma feature_extraction_zeros: "quantum_feature_extraction (replicate L 0) = replicate L 0"
  by (rule nth_equalityI)
    (simp_all add: quantum_feature_extraction_length quantum_feature_extraction_nth
      dft_coefficient_def)

lemma argmax_from_zeros: "argmax_from (replicate k (0::real)) i 0 0 = 0"
  by (induction k arbitrary: i) simp_all

lemma np_argmax_zeros: "0 < L \<Longrightarrow> np_argmax (replicate L (0::real)) = Inr 0"
  by (cases L) (simp_all add: np_argmax_def argmax_from_zeros)

lemma np_angle_zero: "np_angle 0 = 0"
  by (simp add: np_angle_def arctan2_def)

lemma phase_estimation_zeros:
  "0 < L \<Longrightarrow> quantum_phase_estimation (replicate L 0) = Inr (replicate L 0, 0)"
  by (simp add: quantum_phase_estimation_def phase_estimation_of_def feature_extraction_zeros
      np_argmax_zeros rbind_def py_index_def np_angle_zero)

lemma np_fft_zeros: "0 < L \<Longrightarrow> np_fft (replicate L 0) = Inr (replicate L 0)"
  by (auto simp: np_fft_def intro: nth_equalityI)

lemma funpow_max_zeros: "(max (0::real) ^^ k) 0 = 0"
  by (induction k) simp_all

lemma np_max_zeros: "0 < L \<Longrightarrow> np_max (replicate L 0) = Inr 0"
  by (cases L) (simp_all add: np_max_def funpow_max_zeros)

lemma detect_periodicity_zeros: "0 < L \<Longrightarrow> detect_periodicity (replicate L 0) = Inr NaN"
  by (simp add: detect_periodicity_def np_fft_zeros rbind_def np_max_zeros np_divide_def
      sum_list_replicate)

lemma np_std_zeros: "0 < L \<Longrightarrow> np_std (replicate L 0) = Fin 0"
  by (simp add: np_std_def np_divide_def sum_list_replicate)

lemma sum_list_abs_zero: "(\<And>x. x \<in> set xs \<Longrightarrow> x = 0) \<Longrightarrow> sum_list (map abs xs) = (0::real)"
  by (induction xs) simp_all

lemma in_tl_set: "x \<in> set (tl xs) \<Longrightarrow> x \<in> set xs"
  by (cases xs) simp_all

lemma quantum_complexity_zeros: "quantum_complexity (replicate L 0) = 0"
  unfolding quantum_complexity_def
proof (rule sum_list_abs_zero)
  let ?R = "replicate L (0::real)"
  fix x assume "x \<in> set (np_diff ?R)"
  then obtain b a where x: "x = b - a" and p: "(b, a) \<in> set (zip (tl ?R) (butlast ?R))"
    unfolding np_diff_def by auto
  from p have "b \<in> set (tl ?R)" by (rule set_zip_leftD)
  then have b: "b \<in> set ?R" by (rule in_tl_set)
  from p have "a \<in> set (butlast ?R)" by (rule set_zip_rightD)
  then have a: "a \<in> set ?R" by (rule in_set_butlastD)
  from a b x show "x = 0" by simp
qed

lemma length_1_conv: "length xs = 1 \<longleftrightarrow> (\<exists>x. xs = [x])"
  by (cases xs) auto

lemma estimate_noise_single: "estimate_noise [x] = Fin 0"
  by (simp add: estimate_noise_def np_std_def np_divide_def)

lemma quantum_complexity_short: "length signal < 2 \<Longrightarrow> quantum_complexity signal = 0"
proof -
  assume "length signal < 2"
  then have "signal = [] \<or> (\<exists>x. signal = [x])"
    by (cases signal) (auto simp: length_Suc_conv)
  then show ?thesis by (auto simp: quantum_complexity_def np_diff_def)
qed

lemma pattern_recognition_single:
  "\<exists>p. quantum_pattern_recognition [x] =
     Inr \<lparr>periodic = p, noise_level = Fin 0, complexity = 0\<rparr>"
  by (simp add: quantum_pattern_recognition_def detect_periodicity_def np_fft_def np_max_def
      rbind_def estimate_noise_single quantum_complexity_short)

section \<open>The dominant phase\<close>






section \<open>The claims\<close>

text \<open>C1: starting from the initial basis state, after every operation of a sequence of
  valid calls (a 2x2 unitary gate on a qubit in range; an entanglement of two different
  qubits in range) the call has succeeded and the squared magnitudes of the state sum to
  1 to within 1e-9. The amplitudes are exact complex numbers here, for which the sum is
  exactly 1.\<close>

theorem valid_sequence_keeps_unit_norm:
  assumes "list_all (valid_op n) ops" "k \<le> length ops"
  shows "\<exists>c'. run (take k ops) (init_circuit n d) = Inr c' \<and>
     \<bar>norm_sq (state c') - 1\<bar> \<le> 1 / 10 ^ 9"
proof -
  have "list_all (valid_op n) (take k ops)"
    using assms(1) by (auto simp: list_all_iff dest: in_set_takeD)
  from run_unit [OF unit_state_init this, of d]
  obtain c' where "run (take k ops) (init_circuit n d) = Inr c'" "norm_sq (state c') = 1"
    by (auto simp: unit_state_def)
  then show ?thesis by simp
qed

theorem valid_sequence_keeps_unit_norm_witness:
  "list_all (valid_op 2) [Gate gate_H 0, Entangle 0 1] \<and>
   2 \<le> length [Gate gate_H 0, Entangle 0 1] \<and>
   (\<exists>c'. run (take 2 [Gate gate_H 0, Entangle 0 1]) (init_circuit 2 3) = Inr c' \<and>
      \<bar>norm_sq (state c') - 1\<bar> \<le> 1 / 10 ^ 9)"
proof -
  have v: "list_all (valid_op 2) [Gate gate_H 0, Entangle 0 1]"
    by (simp add: unitary2_H)
  have k: "2 \<le> length [Gate gate_H 0, Entangle 0 1]" by simp
  from v k valid_sequence_keeps_unit_norm [OF v k, of 3] show ?thesis by blast
qed

text \<open>C2: for a 2x2 gate and a target qubit in range, \<open>apply_gate\<close> replaces the state by
  the product of the embedded operator with the state, where entry \<open>(i, j)\<close> of the operator
  is \<open>gate[bit(i,target), bit(j,target)]\<close> when \<open>i\<close> and \<open>j\<close> agree on every other
  qubit and 0 otherwise; nothing but the updated circuit is returned.\<close>

theorem apply_gate_embeds_gate:
  assumes "0 \<le> target" "target < int (n_qubits c)" "is_2x2 gate"
    and "length (state c) = 2 ^ n_qubits c"
  shows "apply_gate c gate target =
     Inr (c\<lparr>state := map (\<lambda>i. \<Sum>j<2 ^ n_qubits c.
                 embed_entry (n_qubits c) gate (nat target) i j * state c ! j)
               [0..<2 ^ n_qubits c]\<rparr>)"
  using assms by (rule apply_gate_valid_int)

theorem apply_gate_embeds_gate_witness:
  "(0::int) \<le> 1 \<and> 1 < int (n_qubits (init_circuit 2 3)) \<and> is_2x2 gate_X \<and>
   length (state (init_circuit 2 3)) = 2 ^ n_qubits (init_circuit 2 3) \<and>
   apply_gate (init_circuit 2 3) gate_X 1 = Inr \<lparr>n_qubits = 2, depth = 3, state = [0, 1, 0, 0]\<rparr>"
  using apply_gate_embeds_gate [of 1 "init_circuit 2 3" gate_X]
  by (simp add: init_circuit_def is_2x2_def gate_X_def embed_entry_def agree_off_def
      gate_entry_def qbit_def upt4 lt4 bit_numeral_rec bit_0 bit_Suc)

text \<open>C3: for control and target in range and different, one \<open>entangle_qubits\<close> moves
  the amplitude of every basis index whose control qubit is 1 to the index with the target
  qubit flipped (each such pair is exchanged once) and leaves the other amplitudes in
  place; applying it a second time with the same arguments gives back the circuit it
  started from.\<close>

theorem entangle_twice_is_identity:
  assumes "0 \<le> control" "control < int (n_qubits c)" "0 \<le> target" "target < int (n_qubits c)"
    and "control \<noteq> target" "length (state c) = 2 ^ n_qubits c"
    and "c' = c\<lparr>state := map (\<lambda>i. state c ! (if qbit (n_qubits c) i (nat control)
                                   then flipq (n_qubits c) i (nat target) else i))
                 [0..<2 ^ n_qubits c]\<rparr>"
  shows "entangle_qubits c control target = Inr c' \<and> entangle_qubits c' control target = Inr c"
proof -
  let ?n = "n_qubits c" and ?c = "nat control" and ?t = "nat target"
  let ?p = "cnot_perm ?n ?c ?t"
  from assms have ct: "?c < ?n" "?t < ?n" "?c \<noteq> ?t" by simp_all
  have c': "c' = c\<lparr>state := map (\<lambda>a. state c ! ?p a) [0..<2 ^ ?n]\<rparr>"
    using ct by (simp add: assms(7) cnot_perm_distinct)
  have one: "entangle_qubits c control target = Inr c'"
    unfolding c' using assms(1-4,6) by (rule entangle_valid_int)
  have n': "n_qubits c' = ?n" "length (state c') = 2 ^ ?n" by (simp_all add: c')
  have "entangle_qubits c' control target =
      Inr (c'\<lparr>state := map (\<lambda>a. state c' ! ?p a) [0..<2 ^ ?n]\<rparr>)"
    using entangle_valid_int [of control c' target] assms(1-4) n' by simp
  also have "map (\<lambda>a. state c' ! ?p a) [0..<2 ^ ?n] = state c"
  proof (rule nth_equalityI)
    show "length (map (\<lambda>a. state c' ! ?p a) [0..<2 ^ ?n]) = length (state c)"
      using assms(6) by simp
  next
    fix i assume "i < length (map (\<lambda>a. state c' ! ?p a) [0..<2 ^ ?n])"
    then have i: "i < 2 ^ ?n" by simp
    then have "?p i < 2 ^ ?n" using ct(2) by (simp add: cnot_perm_less)
    then show "map (\<lambda>a. state c' ! ?p a) [0..<2 ^ ?n] ! i = state c ! i"
      using i ct by (simp add: c' cnot_perm_involution)
  qed
  finally have two: "entangle_qubits c' control target = Inr c" by (simp add: c')
  from one two show ?thesis ..
qed

theorem entangle_twice_is_identity_witness:
  "(0::int) \<le> 0 \<and> 0 < int (n_qubits \<lparr>n_qubits = 2, depth = 3, state = [0, 0, 1, 0]\<rparr>) \<and>
   (0::int) \<le> 1 \<and> 1 < int (n_qubits \<lparr>n_qubits = 2, depth = 3, state = [0, 0, 1, 0]\<rparr>) \<and>
   (0::int) \<noteq> 1 \<and>
   length (state \<lparr>n_qubits = 2, depth = 3, state = [0, 0, 1, 0]\<rparr>) = 2 ^ 2 \<and>
   entangle_qubits \<lparr>n_qubits = 2, depth = 3, state = [0, 0, 1, 0]\<rparr> 0 1 =
     Inr \<lparr>n_qubits = 2, depth = 3, state = [0, 0, 0, 1]\<rparr> \<and>
   entangle_qubits \<lparr>n_qubits = 2, depth = 3, state = [0, 0, 0, 1]\<rparr> 0 1 =
     Inr \<lparr>n_qubits = 2, depth = 3, state = [0, 0, 1, 0]\<rparr>"
  using entangle_twice_is_identity [of 0 "\<lparr>n_qubits = 2, depth = 3, state = [0, 0, 1, 0]\<rparr>" 1
      "\<lparr>n_qubits = 2, depth = 3, state = [0, 0, 0, 1]\<rparr>"]
  by (simp add: qbit_def flipq_def upt4 bit_numeral_rec bit_0 bit_Suc flip_bit_eq_if
      set_bit_0 unset_bit_0 set_bit_Suc unset_bit_Suc)

text \<open>C4: for a real signal of length \<open>N\<close> the transform returns exactly \<open>N\<close> complex
  coefficients, and coefficient \<open>k\<close> is the sum over \<open>t\<close> in \<open>[0, N)\<close> of
  \<open>signal[t] * exp(-2 pi i k t / N)\<close>, the discrete Fourier transform.\<close>

theorem feature_extraction_is_dft:
  "length (quantum_feature_extraction signal) = length signal \<and>
   (\<forall>k<length signal. quantum_feature_extraction signal ! k = dft_coefficient signal k)"
  by (simp add: quantum_feature_extraction_length quantum_feature_extraction_nth)

theorem feature_extraction_is_dft_witness:
  "length (quantum_feature_extraction [1, 0]) = length [1::real, 0] \<and>
   (1::nat) < length [1::real, 0] \<and>
   quantum_feature_extraction [1, 0] ! 1 = dft_coefficient [1, 0] 1 \<and>
   dft_coefficient [1, 0] 1 = 1"
proof -
  have "(1::nat) < length [1::real, 0]" by simp
  moreover from feature_extraction_is_dft [of "[1, 0]"]
  have "length (quantum_feature_extraction [1, 0]) = length [1::real, 0]"
    and "quantum_feature_extraction [1, 0] ! 1 = dft_coefficient [1, 0] 1"
    by simp_all
  moreover have "dft_coefficient [1, 0] 1 = 1"
    by (simp add: dft_coefficient_def lessThan_Suc numeral_2_eq_2)
  ultimately show ?thesis by blast
qed

text \<open>C5 (as stated, refuted): a qubit index outside \<open>[0, n)\<close> or a gate that is not
  2x2 is not always rejected. \<open>apply_gate\<close> with target \<open>-1\<close> on one qubit returns
  normally (the index is read from the end of the bit string, and since no position is
  excluded from the comparison only the diagonal of the operator is written, which for X
  wipes the state); a 3x3 gate is accepted and its top-left 2x2 block is used; and
  \<open>entangle_qubits\<close> accepts the indices \<open>-2\<close> and \<open>-1\<close>.\<close>

theorem malformed_call_accepted_counterexample:
  "apply_gate (init_circuit 1 3) gate_X (- 1) = Inr \<lparr>n_qubits = 1, depth = 3, state = [0, 0]\<rparr> \<and>
   apply_gate (init_circuit 1 3) [[0, 1, 5], [1, 0, 5], [5, 5, 5]] 0 =
     Inr \<lparr>n_qubits = 1, depth = 3, state = [0, 1]\<rparr> \<and>
   entangle_qubits \<lparr>n_qubits = 2, depth = 3, state = [0, 0, 1, 0]\<rparr> (- 2) (- 1) =
     Inr \<lparr>n_qubits = 2, depth = 3, state = [0, 0, 0, 1]\<rparr>"
  by code_simp

text \<open>C5 (amended): on a circuit with at least one qubit, \<open>apply_gate\<close> with a target
  index \<open>k \<ge> n\<close> or \<open>k < -n\<close>, \<open>apply_gate\<close> with a gate of fewer than two rows or
  fewer than two columns, and \<open>entangle_qubits\<close> with a control or target index
  \<open>k \<ge> n\<close> or \<open>k < -n\<close> all raise IndexError, Python's own index error, rather than
  an error kind of their own.\<close>

theorem malformed_calls_raise_IndexError:
  assumes "0 < n_qubits c"
  shows "(target < - int (n_qubits c) \<or> int (n_qubits c) \<le> target \<longrightarrow>
            apply_gate c gate target = Inl IndexError) \<and>
         (has_shape gate r k \<and> (r < 2 \<or> k < 2) \<longrightarrow> apply_gate c gate target = Inl IndexError) \<and>
         (control < - int (n_qubits c) \<or> int (n_qubits c) \<le> control \<or>
          target < - int (n_qubits c) \<or> int (n_qubits c) \<le> target \<longrightarrow>
            entangle_qubits c control target = Inl IndexError)"
  using assms apply_gate_index_outside apply_gate_small_gate entangle_index_outside by blast

theorem malformed_calls_raise_IndexError_witness:
  "0 < n_qubits (init_circuit 2 3) \<and>
   int (n_qubits (init_circuit 2 3)) \<le> 2 \<and>
   apply_gate (init_circuit 2 3) gate_X 2 = Inl IndexError \<and>
   has_shape [[1]] 1 1 \<and> (1::nat) < 2 \<and>
   apply_gate (init_circuit 2 3) [[1]] 0 = Inl IndexError \<and>
   (- 3) < - int (n_qubits (init_circuit 2 3)) \<and>
   entangle_qubits (init_circuit 2 3) (- 3) 1 = Inl IndexError"
proof -
  have n: "0 < n_qubits (init_circuit 2 3)" by (simp add: init_circuit_def)
  have s: "has_shape [[1]] 1 1" by (simp add: has_shape_def)
  from malformed_calls_raise_IndexError [OF n, of 2 gate_X 0 0 0]
  have a: "apply_gate (init_circuit 2 3) gate_X 2 = Inl IndexError"
    by (simp add: init_circuit_def)
  from malformed_calls_raise_IndexError [OF n, of 0 "[[1]]" 1 1 0] s
  have b: "apply_gate (init_circuit 2 3) [[1]] 0 = Inl IndexError"
    by simp
  from malformed_calls_raise_IndexError [OF n, of 1 gate_X 0 0 "- 3"]
  have c: "entangle_qubits (init_circuit 2 3) (- 3) 1 = Inl IndexError"
    by (simp add: init_circuit_def)
  from n s a b c show ?thesis by (simp add: init_circuit_def)
qed

text \<open>C6: on an all-zero signal of length \<open>L \<ge> 1\<close> the normalised signal, the
  transform coefficients and the dominant phase are all zero, the noise level is 0 and
  the complexity is 0, but the periodicity metric is \<open>nan\<close>: the peak power 0 is divided
  by the total power 0 with no guard.\<close>

theorem all_zero_signal_periodic_is_nan:
  assumes "0 < L"
  shows "process_signal (replicate L 0) =
     Inr \<lparr>features = (replicate L 0, replicate L 0), phases = (replicate L 0, replicate L 0),
          dominant_phase = 0,
          patterns = \<lparr>periodic = NaN, noise_level = Fin 0, complexity = 0\<rparr>,
          processed_signal = replicate L 0\<rparr>"
  using assms
  by (simp add: process_signal_def Let_def prepare_zeros feature_extraction_zeros
      phase_estimation_zeros rbind_def quantum_pattern_recognition_def
      detect_periodicity_zeros estimate_noise_def np_std_zeros quantum_complexity_zeros
      serialize_complex_def)

theorem all_zero_signal_periodic_is_nan_witness:
  "(0::nat) < 2 \<and>
   process_signal [0, 0] =
     Inr \<lparr>features = ([0, 0], [0, 0]), phases = ([0, 0], [0, 0]), dominant_phase = 0,
          patterns = \<lparr>periodic = NaN, noise_level = Fin 0, complexity = 0\<rparr>,
          processed_signal = [0, 0]\<rparr>"
  using all_zero_signal_periodic_is_nan [of 2] by (simp add: numeral_2_eq_2)




text \<open>C8 (as stated, refuted): on the empty signal the noise level is not 0.
  \<open>np.std\<close> of an empty array is \<open>nan\<close> (the mean of no elements is 0/0), and the
  pattern metrics as a whole raise ValueError, from the FFT of an empty array.\<close>

theorem empty_signal_noise_counterexample:
  "estimate_noise [] = NaN \<and> quantum_pattern_recognition [] = Inl ValueError"
  by (simp add: estimate_noise_def np_std_def np_divide_def quantum_pattern_recognition_def
      detect_periodicity_def np_fft_def rbind_def)

text \<open>C8 (amended): for every signal with fewer than 2 samples the complexity is 0, and
  for every signal of exactly one sample the noise level is 0 and the pattern metrics are
  returned without an error, with \<open>complexity = 0\<close> and \<open>noise_level = 0\<close>.\<close>

theorem short_signal_metrics:
  assumes "length signal < 2"
  shows "quantum_complexity signal = 0 \<and>
     (length signal = 1 \<longrightarrow> estimate_noise signal = Fin 0 \<and>
        (\<exists>p. quantum_pattern_recognition signal =
           Inr \<lparr>periodic = p, noise_level = Fin 0, complexity = 0\<rparr>))"
proof (rule conjI)
  show "quantum_complexity signal = 0" using assms by (rule quantum_complexity_short)
next
  show "length signal = 1 \<longrightarrow> estimate_noise signal = Fin 0 \<and>
        (\<exists>p. quantum_pattern_recognition signal =
           Inr \<lparr>periodic = p, noise_level = Fin 0, complexity = 0\<rparr>)"
  proof (rule impI)
    assume "length signal = 1"
    then obtain x where "signal = [x]" unfolding length_1_conv ..
    then show "estimate_noise signal = Fin 0 \<and>
        (\<exists>p. quantum_pattern_recognition signal =
           Inr \<lparr>periodic = p, noise_level = Fin 0, complexity = 0\<rparr>)"
      using pattern_recognition_single [of x] by (simp add: estimate_noise_single)
  qed
qed

theorem short_signal_metrics_witness:
  "length [5::real] < 2 \<and> length [5::real] = 1 \<and> quantum_complexity [5] = 0 \<and>
   estimate_noise [5] = Fin 0 \<and>
   (\<exists>p. quantum_pattern_recognition [5] =
      Inr \<lparr>periodic = p, noise_level = Fin 0, complexity = 0\<rparr>) \<and>
   length ([]::real list) < 2 \<and> quantum_complexity [] = 0"
  using short_signal_metrics [of "[5]"] short_signal_metrics [of "[]"] by simp



text \<open>C10: with control equal to target (both the in-range index \<open>t\<close>),
  \<open>entangle_qubits\<close> raises nothing and gives exactly the circuit that \<open>apply_gate\<close>
  with the X gate on qubit \<open>t\<close> gives: every amplitude moves to the index with qubit
  \<open>t\<close> flipped.\<close>

theorem entangle_same_qubit_is_X:
  assumes "0 \<le> t" "t < int (n_qubits c)" "length (state c) = 2 ^ n_qubits c"
  shows "entangle_qubits c t t = apply_gate c gate_X t \<and>
     entangle_qubits c t t =
       Inr (c\<lparr>state := map (\<lambda>i. state c ! flipq (n_qubits c) i (nat t)) [0..<2 ^ n_qubits c]\<rparr>)"
proof -
  let ?n = "n_qubits c" and ?t = "nat t"
  from assms have t: "t = int ?t" "?t < ?n" by simp_all
  have ent: "entangle_qubits c t t =
      Inr (c\<lparr>state := map (\<lambda>a. state c ! cnot_perm ?n ?t ?t a) [0..<2 ^ ?n]\<rparr>)"
    using assms by (rule entangle_valid_int [OF _ _ assms(1,2)])
  have perm: "map (\<lambda>a. state c ! cnot_perm ?n ?t ?t a) [0..<2 ^ ?n] =
      map (\<lambda>i. state c ! flipq ?n i ?t) [0..<2 ^ ?n]"
    using t(2) by (simp add: cnot_perm_same)
  have gate: "apply_gate c gate_X t =
      Inr (c\<lparr>state := map (\<lambda>i. \<Sum>j<2 ^ ?n. embed_entry ?n gate_X ?t i j * state c ! j)
                       [0..<2 ^ ?n]\<rparr>)"
    using assms(1,2) is_2x2_X assms(3) by (rule apply_gate_valid_int)
  have "(\<Sum>j<2 ^ ?n. embed_entry ?n gate_X ?t i j * state c ! j) = state c ! flipq ?n i ?t"
    if i: "i < 2 ^ ?n" for i
  proof -
    have "(\<Sum>j<2 ^ ?n. embed_entry ?n gate_X ?t i j * state c ! j) =
        (\<Sum>j<2 ^ ?n. (if j = flipq ?n i ?t then 1 else 0) * state c ! j)"
      by (rule sum.cong) (use t(2) i in \<open>simp_all add: embed_entry_X\<close>)
    also have "\<dots> = state c ! flipq ?n i ?t"
      by (rule sum_pick) (rule flipq_less [OF t(2) i])
    finally show ?thesis .
  qed
  then have "map (\<lambda>i. \<Sum>j<2 ^ ?n. embed_entry ?n gate_X ?t i j * state c ! j) [0..<2 ^ ?n] =
      map (\<lambda>i. state c ! flipq ?n i ?t) [0..<2 ^ ?n]"
    by simp
  with ent perm gate show ?thesis by simp
qed

theorem entangle_same_qubit_is_X_witness:
  "(0::int) \<le> 1 \<and> 1 < int (n_qubits \<lparr>n_qubits = 2, depth = 3, state = [0, 0, 1, 0]\<rparr>) \<and>
   length (state \<lparr>n_qubits = 2, depth = 3, state = [0, 0, 1, 0]\<rparr>) = 2 ^ 2 \<and>
   entangle_qubits \<lparr>n_qubits = 2, depth = 3, state = [0, 0, 1, 0]\<rparr> 1 1 =
     apply_gate \<lparr>n_qubits = 2, depth = 3, state = [0, 0, 1, 0]\<rparr> gate_X 1 \<and>
   entangle_qubits \<lparr>n_qubits = 2, depth = 3, state = [0, 0, 1, 0]\<rparr> 1 1 =
     Inr \<lparr>n_qubits = 2, depth = 3, state = [0, 0, 0, 1]\<rparr>"
  using entangle_same_qubit_is_X [of 1 "\<lparr>n_qubits = 2, depth = 3, state = [0, 0, 1, 0]\<rparr>"]
  by (auto simp: qbit_def flipq_def upt4 bit_numeral_rec bit_0 bit_Suc flip_bit_eq_if
      set_bit_0 unset_bit_0 set_bit_Suc unset_bit_Suc)

end
